theory Spec2Isabelle
  imports Main
begin

section \<open>Data model of the index tree model\<close>

text \<open>
  The development embeds \<^verbatim>\<open>src/vs/base/browser/ui/tree/indexTreeModel.ts\<close>.
  A JavaScript object reference to a node of the tree is modelled twice over, as the
  source uses it in two ways:
  \<^item> as an identity: every node carries a unique number \<open>nid\<close>, given out by a counter
    when the object literal of the node is evaluated; the render list (\<open>this.list\<close>)
    holds such numbers, and \<open>parent\<close> holds the number of the parent node;
  \<^item> as a place to mutate: the path of child indices from \<open>this.root\<close> to the node.
  Events (\<open>_onDidSplice\<close>, \<open>_onDidChangeCollapseState\<close>,
  \<open>_onDidChangeRenderNodeCount\<close>) and the optional callbacks \<open>onDidCreateNode\<close>,
  \<open>onDidDeleteNode\<close> do not touch the model and are left out.
\<close>

datatype error = InvalidTreeLocation | TypeError

text \<open>
  Modelled from the spec: the enumeration \<open>TreeVisibility\<close>, the filter result and
  \<open>ITreeElement\<close> are declared in \<^verbatim>\<open>vs/base/browser/ui/tree/tree\<close>, which is not among the
  sources; section 4.3 names the three visibilities and the optional filter data.
\<close>

datatype TreeVisibility = Hidden | Visible | Recurse

datatype 'fd TreeFilterResult =
    FilterBoolean bool
  | FilterVisibility TreeVisibility
  | FilterDataResult "bool + TreeVisibility" 'fd

datatype 'a ITreeElement =
  TreeElement (elem: 'a) (elemChildren: "'a ITreeElement list")
    (elemCollapsible: "bool option") (elemCollapsed: "bool option")

record ('a, 'fd) node_fields =
  nid :: nat
  element :: 'a
  parent :: "nat option"
  depth :: nat
  visibleChildrenCount :: int
  visibleChildIndex :: int
  collapsible :: bool
  collapsed :: bool
  renderNodeCount :: int
  visible :: bool
  filterData :: "'fd option"

datatype ('a, 'fd) node =
  Node (attrs: "('a, 'fd) node_fields") (children: "('a, 'fd) node list")

record ('a, 'fd) options =
  collapseByDefault :: bool
  filter_fn :: "('a \<Rightarrow> TreeVisibility option \<Rightarrow> 'fd TreeFilterResult) option"
  autoExpandSingleChildren :: bool

record ('a, 'fd) model =
  root :: "('a, 'fd) node"
  list_proj :: "nat list"
  next_id :: nat

abbreviation n_id :: "('a, 'fd) node \<Rightarrow> nat" where
  "n_id n \<equiv> nid (attrs n)"

abbreviation n_visible :: "('a, 'fd) node \<Rightarrow> bool" where
  "n_visible n \<equiv> visible (attrs n)"

abbreviation n_collapsed :: "('a, 'fd) node \<Rightarrow> bool" where
  "n_collapsed n \<equiv> collapsed (attrs n)"

abbreviation n_collapsible :: "('a, 'fd) node \<Rightarrow> bool" where
  "n_collapsible n \<equiv> collapsible (attrs n)"

abbreviation n_rnc :: "('a, 'fd) node \<Rightarrow> int" where
  "n_rnc n \<equiv> renderNodeCount (attrs n)"

abbreviation n_vci :: "('a, 'fd) node \<Rightarrow> int" where
  "n_vci n \<equiv> visibleChildIndex (attrs n)"

abbreviation n_vcc :: "('a, 'fd) node \<Rightarrow> int" where
  "n_vcc n \<equiv> visibleChildrenCount (attrs n)"

text \<open>The constructor of \<open>IndexTreeModel\<close> (lines 69-87): the synthetic root.\<close>

definition init_model :: "'a \<Rightarrow> ('a, 'fd) model" where
  "init_model rootElement =
     \<lparr>root = Node \<lparr>nid = 0, element = rootElement, parent = None, depth = 0,
                    visibleChildrenCount = 0, visibleChildIndex = - 1,
                    collapsible = False, collapsed = False, renderNodeCount = 0,
                    visible = True, filterData = None\<rparr> [],
      list_proj = [], next_id = 1\<rparr>"

subsection \<open>Paths: a node reference as a place in the tree\<close>

fun node_at :: "('a, 'fd) node \<Rightarrow> nat list \<Rightarrow> ('a, 'fd) node option" where
  "node_at n [] = Some n"
| "node_at n (i # p) =
     (if i < length (children n) then node_at (children n ! i) p else None)"

fun update_at :: "nat list \<Rightarrow> (('a, 'fd) node \<Rightarrow> ('a, 'fd) node) \<Rightarrow> ('a, 'fd) node \<Rightarrow> ('a, 'fd) node" where
  "update_at [] f n = f n"
| "update_at (i # p) f n =
     (if i < length (children n)
      then Node (attrs n) ((children n)[i := update_at p f (children n ! i)])
      else n)"

subsection \<open>JavaScript's \<open>Array.prototype.splice\<close>\<close>

text \<open>
  \<open>js_splice start deleteCount items xs\<close> gives the removed elements and the array after
  the call: a negative start counts from the end, a start beyond the end is the end, and
  the delete count is clamped to what is there. The render list is an \<open>ISpliceable\<close>
  (\<^verbatim>\<open>vs/base/common/sequence\<close>, not among the sources). Modelled from the spec: section 6
  describes it as deleting a contiguous run at an index and inserting a sequence in its
  place; it is taken to be a plain array.
\<close>

definition js_splice :: "int \<Rightarrow> int \<Rightarrow> 'b list \<Rightarrow> 'b list \<Rightarrow> 'b list \<times> 'b list" where
  "js_splice start deleteCount items xs =
     (let len = int (length xs);
          s = (if start < 0 then max (len + start) 0 else min start len);
          d = min (max deleteCount 0) (len - s)
      in (take (nat d) (drop (nat s) xs),
          take (nat s) xs @ items @ drop (nat s + nat d) xs))"

subsection \<open>Filtering a node\<close>

fun getVisibleState :: "bool + TreeVisibility \<Rightarrow> TreeVisibility" where
  "getVisibleState (Inl True) = Visible"
| "getVisibleState (Inl False) = Hidden"
| "getVisibleState (Inr v) = v"

text \<open>
  \<open>_filterNode\<close> (lines 471-484) returns the visibility and writes \<open>node.filterData\<close>;
  the model returns both. \<open>None\<close> as parent visibility is JavaScript's \<open>undefined\<close>.
\<close>

definition filterNode ::
  "('a, 'fd) options \<Rightarrow> 'a \<Rightarrow> TreeVisibility option \<Rightarrow> TreeVisibility \<times> 'fd option" where
  "filterNode opts e parentVisibility =
     (case filter_fn opts of
        None \<Rightarrow> (Visible, None)
      | Some f \<Rightarrow>
          (case f e parentVisibility of
             FilterBoolean b \<Rightarrow> (if b then Visible else Hidden, None)
           | FilterDataResult v d \<Rightarrow> (getVisibleState v, Some d)
           | FilterVisibility v \<Rightarrow> (v, None)))"

subsection \<open>Creating nodes\<close>

text \<open>
  \<open>createTreeNode\<close> (lines 302-365). The arguments \<open>pid\<close> and \<open>pdepth\<close> are what the source
  reads of its \<open>parent\<close> argument; \<open>tle\<close> is the array \<open>treeListElements\<close> and \<open>nx\<close> the
  identity counter. \<open>createNodes\<close> is the \<open>forEach\<close> over the lazily mapped children
  (lines 337-344, and lines 123-130 of \<open>splice\<close>, where the numbering of the visible
  children starts at \<open>start\<close>): it returns the nodes, the list, the counter, the number of
  visible nodes and the sum of their render node counts.
\<close>

fun createTreeNode ::
  "('a, 'fd) options \<Rightarrow> 'a ITreeElement \<Rightarrow> nat \<Rightarrow> nat \<Rightarrow> TreeVisibility \<Rightarrow> bool \<Rightarrow>
     nat list \<Rightarrow> nat \<Rightarrow> ('a, 'fd) node \<times> nat list \<times> nat"
and createNodes ::
  "('a, 'fd) options \<Rightarrow> 'a ITreeElement list \<Rightarrow> nat \<Rightarrow> nat \<Rightarrow> TreeVisibility \<Rightarrow> bool \<Rightarrow>
     nat list \<Rightarrow> nat \<Rightarrow> int \<Rightarrow> ('a, 'fd) node list \<times> nat list \<times> nat \<times> int \<times> int"
where
  "createTreeNode opts (TreeElement e cs cb cd) pid pdepth parentVisibility revealed tle nx =
     (let node0 = \<lparr>nid = nx, element = e, parent = Some pid, depth = pdepth + 1,
                   visibleChildrenCount = 0, visibleChildIndex = - 1,
                   collapsible = (case cb of Some b \<Rightarrow> b | None \<Rightarrow> cd \<noteq> None),
                   collapsed = (case cd of None \<Rightarrow> collapseByDefault opts | Some c \<Rightarrow> c),
                   renderNodeCount = 1, visible = True, filterData = None\<rparr>;
          (visibility, fdata) = filterNode opts e (Some parentVisibility);
          tle1 = (if revealed then tle @ [nx] else tle);
          childRevealed = (revealed \<and> visibility \<noteq> Hidden \<and> \<not> collapsed node0);
          (childNodes, tle2, nx2, visibleChildrenCount', rsum) =
             createNodes opts cs nx (pdepth + 1) visibility childRevealed tle1 (Suc nx) 0;
          renderNodeCount' = 1 + rsum;
          vis = (if visibility = Recurse then visibleChildrenCount' > 0
                 else visibility = Visible);
          f1 = node0\<lparr>filterData := fdata,
                     collapsible := collapsible node0 \<or> childNodes \<noteq> [],
                     visibleChildrenCount := visibleChildrenCount',
                     visible := vis\<rparr>;
          f2 = (if \<not> vis then f1\<lparr>renderNodeCount := 0\<rparr>
                else if \<not> collapsed f1 then f1\<lparr>renderNodeCount := renderNodeCount'\<rparr>
                else f1);
          tle3 = (if \<not> vis \<and> revealed then butlast tle2 else tle2)
      in (Node f2 childNodes, tle3, nx2))"
| "createNodes opts [] pid pdepth parentVisibility revealed tle nx start = ([], tle, nx, 0, 0)"
| "createNodes opts (el # els) pid pdepth parentVisibility revealed tle nx start =
     (let (child, tle1, nx1) = createTreeNode opts el pid pdepth parentVisibility revealed tle nx;
          child' = (if n_visible child
                    then Node ((attrs child)\<lparr>visibleChildIndex := start\<rparr>) (children child)
                    else child);
          (rest, tle2, nx2, cnt, rsum) =
             createNodes opts els pid pdepth parentVisibility revealed tle1 nx1
               (if n_visible child then start + 1 else start)
      in (child' # rest, tle2, nx2, (if n_visible child then 1 else 0) + cnt,
          n_rnc child + rsum))"

subsection \<open>Resolving a location\<close>

text \<open>
  \<open>getTreeNode\<close> (lines 487-499). The argument \<open>r\<close> is \<open>this.root\<close>; \<open>node\<close> is the node
  walked so far and \<open>path\<close> its place in the tree. The test admits an index equal to the
  number of children; \<open>node.children[index]\<close> is then \<open>undefined\<close>, and the default value of
  the parameter (\<open>node = this.root\<close>) makes the recursive call start again at the root.
\<close>

fun getTreeNode ::
  "('a, 'fd) node \<Rightarrow> int list \<Rightarrow> ('a, 'fd) node \<Rightarrow> nat list \<Rightarrow>
     error + (('a, 'fd) node \<times> nat list)" where
  "getTreeNode r [] node path = Inr (node, path)"
| "getTreeNode r (index # rest) node path =
     (if index < 0 \<or> index > int (length (children node)) then Inl InvalidTreeLocation
      else if nat index < length (children node)
           then getTreeNode r rest (children node ! nat index) (path @ [nat index])
           else getTreeNode r rest r [])"

text \<open>
  \<open>getParentNodeWithListIndex\<close> (lines 519-539), with the same default parameter for
  \<open>node\<close>. The result is the parent node, its place, the list index and the two flags.
\<close>

fun getParentNodeWithListIndex ::
  "('a, 'fd) node \<Rightarrow> int list \<Rightarrow> ('a, 'fd) node \<Rightarrow> nat list \<Rightarrow> int \<Rightarrow> bool \<Rightarrow> bool \<Rightarrow>
     error + (('a, 'fd) node \<times> nat list \<times> int \<times> bool \<times> bool)" where
  "getParentNodeWithListIndex r [] node path listIndex revealed vis =
     Inr (node, path, listIndex, revealed \<and> \<not> n_collapsed node, vis \<and> n_visible node)"
| "getParentNodeWithListIndex r (index # rest) node path listIndex revealed vis =
     (if index < 0 \<or> index > int (length (children node)) then Inl InvalidTreeLocation
      else
        let listIndex' = listIndex + sum_list (map n_rnc (take (nat index) (children node)));
            revealed' = (revealed \<and> \<not> n_collapsed node);
            vis' = (vis \<and> n_visible node)
        in if rest = [] then Inr (node, path, listIndex', revealed', vis')
           else if nat index < length (children node)
           then getParentNodeWithListIndex r rest (children node ! nat index)
                  (path @ [nat index]) (listIndex' + 1) revealed' vis'
           else getParentNodeWithListIndex r rest r [] (listIndex' + 1) revealed' vis')"

text \<open>
  \<open>getTreeNodeWithListIndex\<close> (lines 502-517). The node is \<open>None\<close> where the source
  returns \<open>undefined\<close> for it; reading \<open>node.visible\<close> of \<open>undefined\<close> is a \<open>TypeError\<close>.
\<close>

definition getTreeNodeWithListIndex ::
  "('a, 'fd) node \<Rightarrow> int list \<Rightarrow>
     error + ((('a, 'fd) node \<times> nat list) option \<times> int \<times> bool \<times> bool)" where
  "getTreeNodeWithListIndex r location =
     (if location = [] then Inr (Some (r, []), - 1, True, False)
      else
        case getParentNodeWithListIndex r location r [] 0 True True of
          Inl e \<Rightarrow> Inl e
        | Inr (parentNode, ppath, listIndex, revealed, vis) \<Rightarrow>
            let index = last location
            in if index < 0 \<or> index > int (length (children parentNode))
               then Inl InvalidTreeLocation
               else if nat index < length (children parentNode)
               then let node = children parentNode ! nat index
                    in Inr (Some (node, ppath @ [nat index]), listIndex, revealed,
                            vis \<and> n_visible node)
               else if vis then Inl TypeError
               else Inr (None, listIndex, revealed, False))"

definition getNode :: "('a, 'fd) model \<Rightarrow> int list \<Rightarrow> error + ('a, 'fd) node" where
  "getNode m location =
     (case getTreeNode (root m) location (root m) [] of
        Inl e \<Rightarrow> Inl e
      | Inr (node, path) \<Rightarrow> Inr node)"

subsection \<open>Splice\<close>

fun treeNodeToElement :: "('a, 'fd) node \<Rightarrow> 'a ITreeElement" where
  "treeNodeToElement (Node fs cs) =
     TreeElement (element fs) (map treeNodeToElement cs) None (Some (collapsed fs))"

text \<open>
  \<open>_updateAncestorsRenderNodeCount\<close> (lines 459-469): the walk along \<open>node.parent\<close> from
  the node at \<open>path\<close> up to the root touches the nodes on the path; \<open>None\<close> is \<open>undefined\<close>.
\<close>

fun addRenderNodeCount :: "int \<Rightarrow> nat list \<Rightarrow> ('a, 'fd) node \<Rightarrow> ('a, 'fd) node" where
  "addRenderNodeCount diff [] n =
     Node ((attrs n)\<lparr>renderNodeCount := n_rnc n + diff\<rparr>) (children n)"
| "addRenderNodeCount diff (i # p) n =
     Node ((attrs n)\<lparr>renderNodeCount := n_rnc n + diff\<rparr>)
       (if i < length (children n)
        then (children n)[i := addRenderNodeCount diff p (children n ! i)]
        else children n)"

definition updateAncestorsRenderNodeCount ::
  "nat list option \<Rightarrow> int \<Rightarrow> ('a, 'fd) node \<Rightarrow> ('a, 'fd) node" where
  "updateAncestorsRenderNodeCount path diff r =
     (if diff = 0 then r
      else case path of None \<Rightarrow> r | Some p \<Rightarrow> addRenderNodeCount diff p r)"

text \<open>
  The loop of lines 108-117: from \<open>lastIndex\<close> downwards, the visible child index of the
  first visible child; the loop is not entered when \<open>lastIndex\<close> is the number of children.
\<close>

fun visibleChildStartIndex_loop :: "('a, 'fd) node list \<Rightarrow> nat \<Rightarrow> int" where
  "visibleChildStartIndex_loop cs 0 = (if n_visible (cs ! 0) then n_vci (cs ! 0) else 0)"
| "visibleChildStartIndex_loop cs (Suc i) =
     (if n_visible (cs ! Suc i) then n_vci (cs ! Suc i)
      else visibleChildStartIndex_loop cs i)"

definition visibleChildStartIndex :: "('a, 'fd) node list \<Rightarrow> int \<Rightarrow> int" where
  "visibleChildStartIndex cs lastIndex =
     (if 0 \<le> lastIndex \<and> lastIndex < int (length cs)
      then visibleChildStartIndex_loop cs (nat lastIndex) else 0)"

text \<open>\<open>splice\<close> (lines 89-176). The result is what the call returns, or the error thrown,
  and the model as the call leaves it.\<close>

definition splice ::
  "('a, 'fd) options \<Rightarrow> int list \<Rightarrow> int \<Rightarrow> 'a ITreeElement list \<Rightarrow> ('a, 'fd) model \<Rightarrow>
     (error + 'a ITreeElement list) \<times> ('a, 'fd) model" where
  "splice opts location deleteCount toInsert m =
     (if location = [] then (Inl InvalidTreeLocation, m)
      else
        case getParentNodeWithListIndex (root m) location (root m) [] 0 True True of
          Inl e \<Rightarrow> (Inl e, m)
        | Inr (parentNode, ppath, listIndex, revealed, vis) \<Rightarrow>
            let lastIndex = last location;
                start = visibleChildStartIndex (children parentNode) lastIndex;
                (nodesToInsert, treeListElementsToInsert, nx, insertedVisibleChildrenCount,
                   renderNodeCount') =
                  createNodes opts toInsert (n_id parentNode) (depth (attrs parentNode))
                    (if n_visible parentNode then Visible else Hidden) revealed []
                    (next_id m) start;
                (deletedNodes, children1) =
                  js_splice lastIndex deleteCount nodesToInsert (children parentNode);
                deletedVisibleChildrenCount = int (length (filter n_visible deletedNodes));
                k = nat lastIndex + length nodesToInsert;
                children2 =
                  (if deletedVisibleChildrenCount \<noteq> 0
                   then take k children1 @
                        map (\<lambda>child. if n_visible child
                               then Node ((attrs child)\<lparr>visibleChildIndex :=
                                      n_vci child - deletedVisibleChildrenCount\<rparr>)
                                      (children child)
                               else child) (drop k children1)
                   else children1);
                parentNode' =
                  Node ((attrs parentNode)\<lparr>visibleChildrenCount :=
                          n_vcc parentNode + insertedVisibleChildrenCount
                            - deletedVisibleChildrenCount\<rparr>) children2;
                root1 = update_at ppath (\<lambda>_. parentNode') (root m);
                visibleDeleteCount = sum_list (map n_rnc deletedNodes);
                root2 = (if revealed \<and> vis
                         then updateAncestorsRenderNodeCount (Some ppath)
                                (renderNodeCount' - visibleDeleteCount) root1
                         else root1);
                list2 = (if revealed \<and> vis
                         then snd (js_splice listIndex visibleDeleteCount
                                     treeListElementsToInsert (list_proj m))
                         else list_proj m)
            in (Inr (map treeNodeToElement deletedNodes),
                \<lparr>root = root2, list_proj = list2, next_id = nx\<rparr>))"

subsection \<open>Collapsing and expanding\<close>

text \<open>\<open>_setNodeCollapsed\<close> (lines 261-279); the argument \<open>deep\<close> only goes into the event.\<close>

fun setNodeCollapsed ::
  "('a, 'fd) node \<Rightarrow> bool \<Rightarrow> bool \<Rightarrow> ('a, 'fd) node \<times> bool"
and setChildrenCollapsed ::
  "('a, 'fd) node list \<Rightarrow> bool \<Rightarrow> bool \<Rightarrow> ('a, 'fd) node list \<times> bool"
where
  "setNodeCollapsed (Node fs cs) collapsed' recursive =
     (let result = (collapsible fs \<and> collapsed fs \<noteq> collapsed');
          fs' = (if collapsible fs then fs\<lparr>collapsed := collapsed'\<rparr> else fs);
          (cs', result') = (if recursive then setChildrenCollapsed cs collapsed' result
                            else (cs, result))
      in (Node fs' cs', result'))"
| "setChildrenCollapsed [] collapsed' result = ([], result)"
| "setChildrenCollapsed (child # cs) collapsed' result =
     (let (child', r) = setNodeCollapsed child collapsed' True;
          (cs', result') = setChildrenCollapsed cs collapsed' (r \<or> result)
      in (child' # cs', result'))"

text \<open>\<open>_updateNodeAfterCollapseChange\<close> (lines 377-393): the node after the call, the
  array \<open>result\<close> after the call, and the number returned.\<close>

fun updateNodeAfterCollapseChange' ::
  "('a, 'fd) node \<Rightarrow> nat list \<Rightarrow> ('a, 'fd) node \<times> nat list \<times> int"
and updateChildrenAfterCollapseChange ::
  "('a, 'fd) node list \<Rightarrow> nat list \<Rightarrow> ('a, 'fd) node list \<times> nat list \<times> int"
where
  "updateNodeAfterCollapseChange' (Node fs cs) result =
     (if \<not> visible fs then (Node fs cs, result, 0)
      else
        let result1 = result @ [nid fs];
            (cs', result2, rsum) =
              (if \<not> collapsed fs then updateChildrenAfterCollapseChange cs result1
               else (cs, result1, 0));
            rnc = 1 + rsum
        in (Node (fs\<lparr>renderNodeCount := rnc\<rparr>) cs', result2, rnc))"
| "updateChildrenAfterCollapseChange [] result = ([], result, 0)"
| "updateChildrenAfterCollapseChange (child # cs) result =
     (let (child', result1, k) = updateNodeAfterCollapseChange' child result;
          (cs', result2, rsum) = updateChildrenAfterCollapseChange cs result1
      in (child' # cs', result2, k + rsum))"

text \<open>\<open>updateNodeAfterCollapseChange\<close> (lines 367-375) for the node \<open>node\<close> at \<open>path\<close>:
  the root after the call, the node after the call, and the array returned.\<close>

definition updateNodeAfterCollapseChange ::
  "('a, 'fd) node \<Rightarrow> nat list \<Rightarrow> ('a, 'fd) node \<Rightarrow>
     ('a, 'fd) node \<times> ('a, 'fd) node \<times> nat list" where
  "updateNodeAfterCollapseChange node path r =
     (let previousRenderNodeCount = n_rnc node;
          (node', result, rnc) = updateNodeAfterCollapseChange' node [];
          r1 = update_at path (\<lambda>_. node') r;
          r2 = updateAncestorsRenderNodeCount
                 (if path = [] then None else Some (butlast path))
                 (int (length result) - previousRenderNodeCount) r1
      in (r2, node', result))"

text \<open>\<open>_setListNodeCollapsed\<close> (lines 246-259) for the node \<open>node\<close> at \<open>path\<close>: the
  boolean returned, the node after the call, and the model after the call.\<close>

definition setListNodeCollapsed ::
  "('a, 'fd) node \<Rightarrow> nat list \<Rightarrow> int \<Rightarrow> bool \<Rightarrow> bool \<Rightarrow> bool \<Rightarrow> ('a, 'fd) model \<Rightarrow>
     bool \<times> ('a, 'fd) node \<times> ('a, 'fd) model" where
  "setListNodeCollapsed node path listIndex revealed collapsed' recursive m =
     (let (node1, result) = setNodeCollapsed node collapsed' recursive;
          r1 = update_at path (\<lambda>_. node1) (root m)
      in if \<not> revealed \<or> \<not> n_visible node1 then (result, node1, m\<lparr>root := r1\<rparr>)
         else
           let previousRenderNodeCount = n_rnc node1;
               (r2, node2, toInsert) = updateNodeAfterCollapseChange node1 path r1;
               deleteCount = previousRenderNodeCount - (if listIndex = - 1 then 0 else 1)
           in (result, node2,
               m\<lparr>root := r2,
                 list_proj := snd (js_splice (listIndex + 1) deleteCount (drop 1 toInsert)
                                     (list_proj m))\<rparr>))"

text \<open>The loop of lines 223-236 of \<open>_setCollapsed\<close>: the index of the only visible child,
  or \<open>-1\<close>.\<close>

fun onlyVisibleChildIndex_loop :: "('a, 'fd) node list \<Rightarrow> nat \<Rightarrow> int \<Rightarrow> int" where
  "onlyVisibleChildIndex_loop [] i found = found"
| "onlyVisibleChildIndex_loop (child # cs) i found =
     (if n_visible child
      then (if found > - 1 then - 1 else onlyVisibleChildIndex_loop cs (Suc i) (int i))
      else onlyVisibleChildIndex_loop cs (Suc i) found)"

definition onlyVisibleChildIndex :: "('a, 'fd) node list \<Rightarrow> int" where
  "onlyVisibleChildIndex cs = onlyVisibleChildIndex_loop cs 0 (- 1)"

text \<open>
  \<open>_setCollapsed\<close> (lines 217-244) up to its recursive call: the boolean \<open>result\<close> and the
  index the call of line 239 goes to, if it is made. An \<open>undefined\<close> node makes
  \<open>_setNodeCollapsed\<close> read \<open>node.collapsible\<close> of \<open>undefined\<close>.
\<close>

definition setCollapsed_step ::
  "('a, 'fd) options \<Rightarrow> int list \<Rightarrow> bool \<Rightarrow> bool option \<Rightarrow> ('a, 'fd) model \<Rightarrow>
     (error + bool \<times> int option) \<times> ('a, 'fd) model" where
  "setCollapsed_step opts location collapsed' recursive m =
     (case getTreeNodeWithListIndex (root m) location of
        Inl e \<Rightarrow> (Inl e, m)
      | Inr (None, listIndex, revealed, vis) \<Rightarrow> (Inl TypeError, m)
      | Inr (Some (node, path), listIndex, revealed, vis) \<Rightarrow>
          let (result, node', m1) =
                setListNodeCollapsed node path listIndex revealed collapsed'
                  (recursive = Some True) m
          in if autoExpandSingleChildren opts \<and> \<not> collapsed' \<and> recursive \<noteq> Some True
             then
               let i = onlyVisibleChildIndex (children node')
               in (Inr (result, if i > - 1 then Some i else None), m1)
             else (Inr (result, None), m1))"

text \<open>
  \<open>_setCollapsed\<close> (lines 217-244): the step, and the call of line 239 on the only
  visible child, whose result is dropped.
\<close>

function setCollapsed' ::
  "('a, 'fd) options \<Rightarrow> int list \<Rightarrow> bool \<Rightarrow> bool option \<Rightarrow> ('a, 'fd) model \<Rightarrow>
     (error + bool) \<times> ('a, 'fd) model" where
  "setCollapsed' opts location collapsed' recursive m =
     (case setCollapsed_step opts location collapsed' recursive m of
        (Inl e, m1) \<Rightarrow> (Inl e, m1)
      | (Inr (result, None), m1) \<Rightarrow> (Inr result, m1)
      | (Inr (result, Some i), m1) \<Rightarrow>
          (case setCollapsed' opts (location @ [i]) False (Some False) m1 of
             (Inl e, m2) \<Rightarrow> (Inl e, m2)
           | (Inr r, m2) \<Rightarrow> (Inr result, m2)))"
  by pat_completeness auto

text \<open>\<open>setCollapsed\<close> (lines 207-215); \<open>None\<close> for \<open>collapsed\<close> is the omitted argument.\<close>

definition setCollapsed ::
  "('a, 'fd) options \<Rightarrow> int list \<Rightarrow> bool option \<Rightarrow> bool option \<Rightarrow> ('a, 'fd) model \<Rightarrow>
     (error + bool) \<times> ('a, 'fd) model" where
  "setCollapsed opts location collapsed' recursive m =
     (case getTreeNode (root m) location (root m) [] of
        Inl e \<Rightarrow> (Inl e, m)
      | Inr (node, path) \<Rightarrow>
          setCollapsed' opts location
            (case collapsed' of None \<Rightarrow> \<not> n_collapsed node | Some c \<Rightarrow> c) recursive m)"

text \<open>
  \<open>expandTo\<close> (lines 281-294). The loop keeps the node (here its place \<open>path\<close>, of which
  \<open>node.parent\<close> is the place without its last index) and the location, and shortens
  both. A node that has a parent has it in the tree; the branch \<open>None\<close> stands for a
  place outside the tree.
\<close>

function expandTo_loop ::
  "('a, 'fd) options \<Rightarrow> nat list \<Rightarrow> int list \<Rightarrow> ('a, 'fd) model \<Rightarrow>
     (error + unit) \<times> ('a, 'fd) model" where
  "expandTo_loop opts path location m =
     (if path = [] then (Inr (), m)
      else
        case node_at (root m) (butlast path) of
          None \<Rightarrow> (Inl TypeError, m)
        | Some node \<Rightarrow>
            if n_collapsed node
            then (case setCollapsed' opts (butlast location) False None m of
                    (Inl e, m1) \<Rightarrow> (Inl e, m1)
                  | (Inr r, m1) \<Rightarrow> expandTo_loop opts (butlast path) (butlast location) m1)
            else expandTo_loop opts (butlast path) (butlast location) m)"
  by pat_completeness auto
termination
  by (relation "measure (\<lambda>(opts, path, location, m). length path)") auto

declare expandTo_loop.simps [simp del]

definition expandTo ::
  "('a, 'fd) options \<Rightarrow> int list \<Rightarrow> ('a, 'fd) model \<Rightarrow> (error + unit) \<times> ('a, 'fd) model" where
  "expandTo opts location m =
     (case getTreeNode (root m) location (root m) [] of
        Inl e \<Rightarrow> (Inl e, m)
      | Inr (node, path) \<Rightarrow> expandTo_loop opts path location m)"

subsection \<open>Refiltering\<close>

text \<open>
  \<open>_updateNodeAfterFilterChange\<close> (lines 405-457). \<open>isRoot\<close> is the test
  \<open>node === this.root\<close>: the pass starts at the root and no child is the root. The
  variable \<open>visibility\<close> stays \<open>undefined\<close> (\<open>None\<close>) for the root. The result is the node
  after the call, the array \<open>result\<close> after the call and the boolean returned. The second
  function is the loop over the children (lines 428-434), which also returns the last
  value of \<open>visibleChildIndex\<close>.
\<close>

fun updateNodeAfterFilterChange' ::
  "('a, 'fd) options \<Rightarrow> bool \<Rightarrow> ('a, 'fd) node \<Rightarrow> TreeVisibility option \<Rightarrow> nat list \<Rightarrow>
     bool \<Rightarrow> ('a, 'fd) node \<times> nat list \<times> bool"
and updateChildrenAfterFilterChange ::
  "('a, 'fd) options \<Rightarrow> ('a, 'fd) node list \<Rightarrow> TreeVisibility option \<Rightarrow> nat list \<Rightarrow>
     bool \<Rightarrow> bool \<Rightarrow> int \<Rightarrow> ('a, 'fd) node list \<times> nat list \<times> bool \<times> int"
where
  "updateNodeAfterFilterChange' opts isRoot (Node fs cs) parentVisibility result revealed =
     (let (visibility, fs0) =
            (if \<not> isRoot
             then (let (v, d) = filterNode opts (element fs) parentVisibility
                   in (Some v, fs\<lparr>filterData := d\<rparr>))
             else (None, fs))
      in if \<not> isRoot \<and> visibility = Some Hidden
         then (Node (fs0\<lparr>visible := False\<rparr>) cs, result, False)
         else
           let result1 = (if \<not> isRoot \<and> revealed then result @ [nid fs] else result);
               resultStartLength = length result1;
               fs1 = fs0\<lparr>renderNodeCount := (if isRoot then 0 else 1)\<rparr>;
               (cs', result2, hasVisibleDescendants, fs2) =
                 (if \<not> collapsed fs1 \<or> visibility \<noteq> Some Hidden
                  then
                    let (cs', result2, hasVisibleDescendants, visibleChildIndex') =
                          updateChildrenAfterFilterChange opts cs visibility result1
                            (revealed \<and> \<not> collapsed fs1) False 0
                    in (cs', result2, hasVisibleDescendants,
                        fs1\<lparr>visibleChildrenCount := visibleChildIndex'\<rparr>)
                  else (cs, result1, False, fs1\<lparr>visibleChildrenCount := 0\<rparr>));
               fs3 = (if \<not> isRoot
                      then fs2\<lparr>visible := (if visibility = Some Recurse
                                             then hasVisibleDescendants
                                             else visibility = Some Visible)\<rparr>
                      else fs2);
               fs4 = (if \<not> visible fs3 then fs3\<lparr>renderNodeCount := 0\<rparr>
                      else if \<not> collapsed fs3
                      then fs3\<lparr>renderNodeCount :=
                                 renderNodeCount fs3
                                   + (int (length result2) - int resultStartLength)\<rparr>
                      else fs3);
               result3 = (if \<not> visible fs3 \<and> revealed then butlast result2 else result2)
           in (Node fs4 cs', result3, visible fs4))"
| "updateChildrenAfterFilterChange opts [] visibility result revealed hasVisibleDescendants
     visibleChildIndex' = ([], result, hasVisibleDescendants, visibleChildIndex')"
| "updateChildrenAfterFilterChange opts (child # cs) visibility result revealed
     hasVisibleDescendants visibleChildIndex' =
     (let (child1, result1, b) =
            updateNodeAfterFilterChange' opts False child visibility result revealed;
          hasVisibleDescendants1 = (b \<or> hasVisibleDescendants);
          child2 = (if n_visible child1
                    then Node ((attrs child1)\<lparr>visibleChildIndex := visibleChildIndex'\<rparr>)
                           (children child1)
                    else child1);
          (cs', result2, hasVisibleDescendants2, visibleChildIndex2) =
            updateChildrenAfterFilterChange opts cs visibility result1 revealed
              hasVisibleDescendants1
              (if n_visible child1 then visibleChildIndex' + 1 else visibleChildIndex')
      in (child2 # cs', result2, hasVisibleDescendants2, visibleChildIndex2))"

text \<open>
  \<open>updateNodeAfterFilterChange\<close> (lines 395-403) is only called with the root, whose
  \<open>parent\<close> is \<open>undefined\<close>, so that \<open>_updateAncestorsRenderNodeCount\<close> does nothing; and
  \<open>refilter\<close> (lines 296-300).
\<close>

definition updateNodeAfterFilterChange ::
  "('a, 'fd) options \<Rightarrow> ('a, 'fd) node \<Rightarrow> ('a, 'fd) node \<times> nat list" where
  "updateNodeAfterFilterChange opts node =
     (let (node', result, b) =
            updateNodeAfterFilterChange' opts True node
              (Some (if n_visible node then Visible else Hidden)) [] True
      in (node', result))"

definition refilter :: "('a, 'fd) options \<Rightarrow> ('a, 'fd) model \<Rightarrow> ('a, 'fd) model" where
  "refilter opts m =
     (let previousRenderNodeCount = n_rnc (root m);
          (root', toInsert) = updateNodeAfterFilterChange opts (root m)
      in m\<lparr>root := root',
           list_proj := snd (js_splice 0 previousRenderNodeCount toInsert (list_proj m))\<rparr>)"

subsection \<open>The location of a node\<close>

text \<open>
  \<open>getNodeLocation\<close> (lines 546-555). \<open>node.parent\<close> is followed by looking the parent's
  identity up in the tree, \<open>indexOf\<close> compares identities. The loop has no bound of its
  own, so it is a partial function.
\<close>

fun find_node :: "nat \<Rightarrow> ('a, 'fd) node \<Rightarrow> ('a, 'fd) node option"
and find_node_list :: "nat \<Rightarrow> ('a, 'fd) node list \<Rightarrow> ('a, 'fd) node option" where
  "find_node i (Node fs cs) = (if nid fs = i then Some (Node fs cs) else find_node_list i cs)"
| "find_node_list i [] = None"
| "find_node_list i (child # cs) =
     (case find_node i child of Some n \<Rightarrow> Some n | None \<Rightarrow> find_node_list i cs)"

fun indexOf_loop :: "('a, 'fd) node list \<Rightarrow> nat \<Rightarrow> nat \<Rightarrow> int" where
  "indexOf_loop [] i k = - 1"
| "indexOf_loop (child # cs) i k = (if n_id child = i then int k else indexOf_loop cs i (Suc k))"

definition indexOf :: "('a, 'fd) node list \<Rightarrow> ('a, 'fd) node \<Rightarrow> int" where
  "indexOf cs node = indexOf_loop cs (n_id node) 0"

partial_function (option) getNodeLocation_loop ::
  "('a, 'fd) node \<Rightarrow> ('a, 'fd) node \<Rightarrow> int list \<Rightarrow> int list option" where
  "getNodeLocation_loop r node location =
     (case parent (attrs node) of
        None \<Rightarrow> Some location
      | Some pid \<Rightarrow>
          (case find_node pid r of
             None \<Rightarrow> None
           | Some p \<Rightarrow> getNodeLocation_loop r p (location @ [indexOf (children p) node])))"

definition getNodeLocation :: "('a, 'fd) model \<Rightarrow> ('a, 'fd) node \<Rightarrow> int list option" where
  "getNodeLocation m node = map_option rev (getNodeLocation_loop (root m) node [])"

subsection \<open>The traversal the render list is compared with\<close>

text \<open>
  Following the specification's words: the depth-first, sibling-order traversal of the
  visible nodes, which goes below a node only when the node is not collapsed, without
  the synthetic root.
\<close>

fun revealed_nodes :: "('a, 'fd) node \<Rightarrow> nat list" where
  "revealed_nodes (Node fs cs) =
     (if visible fs
      then nid fs # (if collapsed fs then [] else concat (map revealed_nodes cs))
      else [])"

definition traversal :: "('a, 'fd) model \<Rightarrow> nat list" where
  "traversal m = concat (map revealed_nodes (children (root m)))"

subsection \<open>Locations that address a node\<close>

text \<open>
  Following the specification's words: a location addresses a node by walking
  \<open>children[index]\<close> repeatedly from the root; the empty location addresses the root.
\<close>

fun walk :: "('a, 'fd) node \<Rightarrow> int list \<Rightarrow> ('a, 'fd) node option" where
  "walk n [] = Some n"
| "walk n (i # loc) =
     (if 0 \<le> i \<and> i < int (length (children n)) then walk (children n ! nat i) loc else None)"

subsection \<open>The shape of a tree\<close>

text \<open>The tree without its fields, and the size of what a location resolves to.\<close>

datatype skel = Skel "skel list"

fun skel_of :: "('a, 'fd) node \<Rightarrow> skel" where
  "skel_of (Node fs cs) = Skel (map skel_of cs)"

definition resolved_size :: "('a, 'fd) node \<Rightarrow> int list \<Rightarrow> nat" where
  "resolved_size r location =
     (case getTreeNode r location r [] of Inl e \<Rightarrow> 0 | Inr (node, path) \<Rightarrow> size (skel_of node))"

subsection \<open>A field of every node of the tree\<close>

text \<open>
  \<open>tree_of f\<close> keeps of every node the value \<open>f\<close> of its fields; \<open>collapse_tree\<close> is the
  collapse state of every node. Two trees have the same collapse state in every node
  iff their collapse trees are equal.
\<close>

datatype 'b ftree = FTree (froot: 'b) (fsubs: "'b ftree list")

fun tree_of :: "(('a, 'fd) node_fields \<Rightarrow> 'b) \<Rightarrow> ('a, 'fd) node \<Rightarrow> 'b ftree" where
  "tree_of f (Node fs cs) = FTree (f fs) (map (tree_of f) cs)"

abbreviation collapse_tree :: "('a, 'fd) node \<Rightarrow> bool ftree" where
  "collapse_tree \<equiv> tree_of collapsed"


subsection \<open>Expanding the ancestors of a node\<close>

text \<open>
  \<open>expand_node\<close> is a node after an expanding write to its collapse state: a
  collapsible node is expanded, another one keeps its flag. \<open>expandAncestors path\<close>
  does this to the nodes above the node at \<open>path\<close>, and to no other node.
  \<open>collapsed_at\<close> reads the collapse state of the node a location addresses.
\<close>

definition expand_node :: "('a, 'fd) node \<Rightarrow> ('a, 'fd) node" where
  "expand_node n =
     Node ((attrs n)\<lparr>collapsed := n_collapsed n \<and> \<not> n_collapsible n\<rparr>) (children n)"

fun expandAncestors :: "nat list \<Rightarrow> ('a, 'fd) node \<Rightarrow> ('a, 'fd) node" where
  "expandAncestors [] n = n"
| "expandAncestors (i # p) n =
     Node ((attrs n)\<lparr>collapsed := n_collapsed n \<and> \<not> n_collapsible n\<rparr>)
       (if i < length (children n)
        then (children n)[i := expandAncestors p (children n ! i)]
        else children n)"

definition collapsed_at :: "('a, 'fd) model \<Rightarrow> int list \<Rightarrow> bool option" where
  "collapsed_at m loc = map_option n_collapsed (walk (root m) loc)"

subsection \<open>Node identities\<close>

text \<open>
  The identities of the nodes of a tree in depth-first order, and the \<open>parent\<close> fields
  against the tree. In a state of the program every object has its own identity and
  \<open>parent\<close> is the node whose \<open>children\<close> array holds the node (line 311); \<open>wf_refs\<close> says
  that of the numbers that stand for the references.
\<close>

fun ids :: "('a, 'fd) node \<Rightarrow> nat list" where
  "ids (Node fs cs) = nid fs # concat (map ids cs)"

fun parents_ok :: "nat option \<Rightarrow> ('a, 'fd) node \<Rightarrow> bool" where
  "parents_ok p (Node fs cs) = (parent fs = p \<and> (\<forall>c \<in> set cs. parents_ok (Some (nid fs)) c))"

definition wf_refs :: "('a, 'fd) node \<Rightarrow> bool" where
  "wf_refs r = (distinct (ids r) \<and> parents_ok None r)"

subsection \<open>The auto-expand branch of \<open>_setCollapsed\<close>\<close>


subsection \<open>Visibility of a node against its filter result\<close>

text \<open>
  Following the specification's words (section 4.3): a node whose filter result is
  \<open>Recurse\<close> is visible iff one of its children is (its \<open>visibleChildrenCount\<close> is
  positive), a node whose result is \<open>Visible\<close> is visible and one whose result is \<open>Hidden\<close>
  is not. The filter result of a child is taken with the result of its parent as
  parent visibility. With \<open>below_hidden\<close> the nodes below a node with result \<open>Hidden\<close>
  are looked at as well.
\<close>

fun visibility_resolved ::
  "('a, 'fd) options \<Rightarrow> bool \<Rightarrow> TreeVisibility option \<Rightarrow> ('a, 'fd) node \<Rightarrow> bool" where
  "visibility_resolved opts below_hidden parentVisibility (Node fs cs) =
     (let v = fst (filterNode opts (element fs) parentVisibility)
      in (case v of
            Hidden \<Rightarrow> \<not> visible fs
          | Visible \<Rightarrow> visible fs
          | Recurse \<Rightarrow>
              (visible fs \<longleftrightarrow> (\<exists>c \<in> set cs. n_visible c)) \<and>
              (visible fs \<longleftrightarrow> visibleChildrenCount fs > 0))
         \<and> (v \<noteq> Hidden \<or> below_hidden \<longrightarrow>
               (\<forall>c \<in> set cs. visibility_resolved opts below_hidden (Some v) c)))"

subsection \<open>Render node counts\<close>

text \<open>
  The cached \<open>renderNodeCount\<close> of a node is the number of rows the node and its
  descendants take in the render list. \<open>count_ok\<close> says that the count of a node is 1
  when it is collapsed and 1 plus the counts of its children when it is expanded, and
  the same for the children of an expanded node, recursively; it says nothing of what
  lies below a collapsed node. \<open>all_visible\<close> says that no node of a subtree is hidden,
  and \<open>shows_all\<close> that the filter (if there is one) returns \<open>Visible\<close> for every
  element.
\<close>

definition shows_all :: "('a, 'fd) options \<Rightarrow> bool" where
  "shows_all opts = (\<forall>e pv. fst (filterNode opts e pv) = Visible)"

fun all_visible :: "('a, 'fd) node \<Rightarrow> bool" where
  "all_visible (Node fs cs) = (visible fs \<and> (\<forall>c \<in> set cs. all_visible c))"

fun count_ok :: "('a, 'fd) node \<Rightarrow> bool" where
  "count_ok (Node fs cs) =
     (renderNodeCount fs = (if collapsed fs then 1 else 1 + sum_list (map n_rnc cs)) \<and>
      (\<not> collapsed fs \<longrightarrow> (\<forall>c \<in> set cs. count_ok c)))"

text \<open>
  \<open>above_expanded n p\<close>: the nodes on the path \<open>p\<close> from \<open>n\<close>, the node at \<open>p\<close> left out, are
  all expanded; \<open>ancestors_expanded\<close> is the same for a location. \<open>bump d p g n\<close> replaces
  the node at \<open>p\<close> by its image under \<open>g\<close> and adds \<open>d\<close> to the count of every node above
  it.
\<close>

fun above_expanded :: "('a, 'fd) node \<Rightarrow> nat list \<Rightarrow> bool" where
  "above_expanded n [] = True"
| "above_expanded n (i # p) = (\<not> n_collapsed n \<and> above_expanded (children n ! i) p)"

fun ancestors_expanded :: "('a, 'fd) node \<Rightarrow> int list \<Rightarrow> bool" where
  "ancestors_expanded n [] = True"
| "ancestors_expanded n (i # loc) =
     (\<not> n_collapsed n \<and> ancestors_expanded (children n ! nat i) loc)"

fun bump :: "int \<Rightarrow> nat list \<Rightarrow> (('a, 'fd) node \<Rightarrow> ('a, 'fd) node) \<Rightarrow> ('a, 'fd) node \<Rightarrow> ('a, 'fd) node" where
  "bump d [] g n = g n"
| "bump d (i # p) g n =
     Node ((attrs n)\<lparr>renderNodeCount := n_rnc n + d\<rparr>)
       (if i < length (children n) then (children n)[i := bump d p g (children n ! i)]
        else children n)"

text \<open>What the calls keep true of the root: it is neither collapsed nor collapsible, no
  node is hidden, and the counts of its children are right.\<close>

definition counts_inv :: "('a, 'fd) node \<Rightarrow> bool" where
  "counts_inv r =
     (all_visible r \<and> \<not> n_collapsed r \<and> \<not> n_collapsible r \<and>
      (\<forall>c \<in> set (children r). count_ok c))"

abbreviation shape :: "('a, 'fd) node \<Rightarrow> unit ftree" where
  "shape \<equiv> tree_of (\<lambda>_. ())"

text \<open>
  Sequences of calls of the public methods. A call is valid in a model when its
  location addresses a node (for \<open>splice\<close>: a place among the children of a node);
  \<open>run\<close> makes the calls one after the other and gives \<open>None\<close> when one of them is not
  valid where it is made.
\<close>

datatype 'a call =
    Splice "int list" int "'a ITreeElement list"
  | SetCollapsed "int list" "bool option" "bool option"
  | ExpandTo "int list"
  | Refilter

fun valid_call :: "('a, 'fd) model \<Rightarrow> 'a call \<Rightarrow> bool" where
  "valid_call m (Splice location deleteCount toInsert) =
     (location \<noteq> [] \<and>
      (case walk (root m) (butlast location) of
         None \<Rightarrow> False
       | Some p \<Rightarrow> 0 \<le> last location \<and> last location \<le> int (length (children p))))"
| "valid_call m (SetCollapsed location c rc) = (walk (root m) location \<noteq> None)"
| "valid_call m (ExpandTo location) = (walk (root m) location \<noteq> None)"
| "valid_call m Refilter = True"

fun do_call :: "('a, 'fd) options \<Rightarrow> 'a call \<Rightarrow> ('a, 'fd) model \<Rightarrow> ('a, 'fd) model" where
  "do_call opts (Splice location deleteCount toInsert) m =
     snd (splice opts location deleteCount toInsert m)"
| "do_call opts (SetCollapsed location c rc) m = snd (setCollapsed opts location c rc m)"
| "do_call opts (ExpandTo location) m = snd (expandTo opts location m)"
| "do_call opts Refilter m = refilter opts m"

fun run :: "('a, 'fd) options \<Rightarrow> 'a call list \<Rightarrow> ('a, 'fd) model \<Rightarrow> ('a, 'fd) model option" where
  "run opts [] m = Some m"
| "run opts (c # cs) m = (if valid_call m c then run opts cs (do_call opts c m) else None)"

text \<open>
  Following the specification's words (section on the render node count): a hidden
  node counts 0, a visible node that is collapsed or childless counts 1, and a visible
  expanded node counts 1 plus the counts of its children.
\<close>

definition claimed_renderNodeCount :: "('a, 'fd) node \<Rightarrow> int" where
  "claimed_renderNodeCount n =
     (if \<not> n_visible n then 0
      else if n_collapsed n \<or> children n = [] then 1
      else 1 + sum_list (map n_rnc (children n)))"

subsection \<open>Example inputs\<close>

definition no_filter :: "(string, unit) options" where
  "no_filter = \<lparr>collapseByDefault = False, filter_fn = None, autoExpandSingleChildren = False\<rparr>"

definition leaf :: "string \<Rightarrow> string ITreeElement" where
  "leaf e = TreeElement e [] None None"

definition empty_model :: "(string, unit) model" where
  "empty_model = init_model ''root''"

definition recurse_filter :: "(string, unit) options" where
  "recurse_filter =
     \<lparr>collapseByDefault = False,
      filter_fn = Some (\<lambda>e parentVisibility. FilterVisibility
                    (if e = ''a'' then Recurse
                     else if e = ''a1'' \<or> e = ''b'' then Visible else Hidden)),
      autoExpandSingleChildren = False\<rparr>"

definition element_a :: "string ITreeElement" where
  "element_a = TreeElement ''a'' [leaf ''a1'', leaf ''a2''] None None"

definition model_a_b :: "(string, unit) model" where
  "model_a_b = snd (splice no_filter [0] 0 [element_a, leaf ''b''] empty_model)"

definition hide :: "string \<Rightarrow> (string, unit) options" where
  "hide x = \<lparr>collapseByDefault = False,
              filter_fn = Some (\<lambda>e parentVisibility. FilterBoolean (e \<noteq> x)),
              autoExpandSingleChildren = False\<rparr>"

definition model_ab :: "(string, unit) model" where
  "model_ab = snd (splice no_filter [0] 0 [leaf ''a'', leaf ''b''] empty_model)"

definition model_ab_refiltered :: "(string, unit) model" where
  "model_ab_refiltered = refilter (hide ''a'') model_ab"

definition model_acb :: "(string, unit) model" where
  "model_acb = snd (splice (hide ''a'') [1] 0 [leaf ''c''] model_ab_refiltered)"

definition auto_expand :: "(string, unit) options" where
  "auto_expand = \<lparr>collapseByDefault = False, filter_fn = None, autoExpandSingleChildren = True\<rparr>"

definition model_nested :: "(string, unit) model" where
  "model_nested =
     snd (splice auto_expand [0] 0
            [TreeElement ''a'' [TreeElement ''a1'' [leaf ''x''] None (Some True)] None (Some False)]
            empty_model)"

definition model_deep :: "(string, unit) model" where
  "model_deep =
     snd (splice no_filter [0] 0
            [TreeElement ''a''
               [TreeElement ''t'' [leaf ''x''] None (Some True),
                TreeElement ''s'' [leaf ''y''] None (Some True)] None (Some True),
             TreeElement ''b'' [leaf ''b1''] None (Some True)]
            empty_model)"

definition model_single :: "(string, unit) model" where
  "model_single =
     snd (splice auto_expand [0] 0
            [TreeElement ''a'' [TreeElement ''t'' [leaf ''x''] None (Some True)] None (Some True)]
            empty_model)"

definition example_calls :: "string call list" where
  "example_calls =
     [Splice [0] 0 [element_a, leaf ''b''],
      SetCollapsed [0] (Some True) None,
      Splice [0, 1] 0 [leaf ''z''],
      Refilter,
      ExpandTo [0, 2]]"

section \<open>Termination of the recursion of \<open>_setCollapsed\<close>\<close>

text \<open>
  The call of line 239 goes to a child of the node the location resolves to; the
  operations on the way change no \<open>children\<close> array, so the tree below the resolved node
  gets smaller.
\<close>

lemma skel_children: "skel_of n = skel_of n' \<Longrightarrow> map skel_of (children n) = map skel_of (children n')"
  by (cases n; cases n') simp

lemma skel_length: "skel_of n = skel_of n' \<Longrightarrow> length (children n) = length (children n')"
  using skel_children map_eq_imp_length_eq by blast

lemma skel_nth:
  "skel_of n = skel_of n' \<Longrightarrow> i < length (children n) \<Longrightarrow> skel_of (children n ! i) = skel_of (children n' ! i)"
  using skel_children [of n n'] by (metis nth_map skel_length)

lemma skel_size_child:
  "i < length (children n) \<Longrightarrow> size (skel_of (children n ! i)) < size (skel_of n)"
proof (cases n)
  case (Node fs cs)
  assume "i < length (children n)"
  then have "skel_of (cs ! i) \<in> set (map skel_of cs)" using Node by simp
  then have "size (skel_of (cs ! i)) < Suc (size_list size (map skel_of cs))"
    by (meson less_Suc_eq_le size_list_estimation' order_refl)
  then show ?thesis using Node by simp
qed

lemma getTreeNode_skel:
  "skel_of r1 = skel_of r \<Longrightarrow> skel_of n1 = skel_of n \<Longrightarrow>
   (case getTreeNode r loc n p of
      Inl e \<Rightarrow> getTreeNode r1 loc n1 p = Inl e
    | Inr (node, path) \<Rightarrow>
        (\<exists>node1. getTreeNode r1 loc n1 p = Inr (node1, path) \<and> skel_of node1 = skel_of node))"
proof (induction loc arbitrary: n n1 p)
  case Nil
  then show ?case by simp
next
  case (Cons index rest)
  have len: "length (children n1) = length (children n)"
    using Cons.prems(2) by (rule skel_length)
  show ?case
  proof (cases "index < 0 \<or> index > int (length (children n))")
    case True
    then show ?thesis using len by simp
  next
    case False
    show ?thesis
    proof (cases "nat index < length (children n)")
      case True
      have "skel_of (children n1 ! nat index) = skel_of (children n ! nat index)"
        using skel_nth [OF Cons.prems(2)] True len by simp
      note ih = Cons.IH [OF Cons.prems(1) this, of "p @ [nat index]"]
      have e1: "getTreeNode r (index # rest) n p =
                  getTreeNode r rest (children n ! nat index) (p @ [nat index])"
        using False True by simp
      have e2: "getTreeNode r1 (index # rest) n1 p =
                  getTreeNode r1 rest (children n1 ! nat index) (p @ [nat index])"
        using False True len by simp
      show ?thesis unfolding e1 e2 by (rule ih)
    next
      case F2: False
      note ih = Cons.IH [OF Cons.prems(1) Cons.prems(1), of "[]"]
      have e1: "getTreeNode r (index # rest) n p = getTreeNode r rest r []"
        using False F2 by simp
      have e2: "getTreeNode r1 (index # rest) n1 p = getTreeNode r1 rest r1 []"
        using False F2 len by simp
      show ?thesis unfolding e1 e2 by (rule ih)
    qed
  qed
qed

lemma getTreeNode_append:
  "getTreeNode r (loc @ [i]) n p =
     (case getTreeNode r loc n p of
        Inl e \<Rightarrow> Inl e
      | Inr (node, path) \<Rightarrow> getTreeNode r [i] node path)"
  by (induction loc arbitrary: n p) auto

lemma getParent_getTreeNode:
  "loc \<noteq> [] \<Longrightarrow>
   getParentNodeWithListIndex r loc n p li rv vis = Inr (pn, pp, li', rv', vis') \<Longrightarrow>
   getTreeNode r (butlast loc) n p = Inr (pn, pp)"
proof (induction loc arbitrary: n p li rv vis)
  case Nil
  then show ?case by simp
next
  case (Cons index rest)
  show ?case
  proof (cases "rest = []")
    case True
    then show ?thesis using Cons.prems by (auto simp: Let_def split: if_splits)
  next
    case False
    then show ?thesis using Cons.prems Cons.IH
      by (auto simp: Let_def split: if_splits)
  qed
qed

lemma getTreeNodeWithListIndex_getTreeNode:
  assumes "getTreeNodeWithListIndex r loc = Inr (Some (node, path), li, rv, vis)"
  shows "getTreeNode r loc r [] = Inr (node, path)"
proof (cases "loc = []")
  case True
  then show ?thesis using assms by (simp add: getTreeNodeWithListIndex_def)
next
  case False
  from assms False obtain pn pp li' rv' vis' where
    gp: "getParentNodeWithListIndex r loc r [] 0 True True = Inr (pn, pp, li', rv', vis')"
    by (auto simp: getTreeNodeWithListIndex_def split: sum.splits)
  from assms False gp have
    idx: "0 \<le> last loc" "nat (last loc) < length (children pn)"
      and nd: "node = children pn ! nat (last loc)" "path = pp @ [nat (last loc)]"
    by (auto simp: getTreeNodeWithListIndex_def Let_def split: if_splits)
  have "getTreeNode r (butlast loc) r [] = Inr (pn, pp)"
    using getParent_getTreeNode [OF False gp] .
  moreover have "loc = butlast loc @ [last loc]" using False by simp
  ultimately have "getTreeNode r loc r [] = getTreeNode r [last loc] pn pp"
    using getTreeNode_append [of r "butlast loc" "last loc" r "[]"] by simp
  then show ?thesis using idx nd by simp
qed


lemma node_at_append:
  "node_at r (p @ [i]) =
     (case node_at r p of
        None \<Rightarrow> None
      | Some n \<Rightarrow> if i < length (children n) then Some (children n ! i) else None)"
  by (induction p arbitrary: r) auto

lemma getTreeNode_node_at:
  "node_at r p = Some n \<Longrightarrow> getTreeNode r loc n p = Inr (node, path) \<Longrightarrow>
   node_at r path = Some node"
proof (induction loc arbitrary: n p)
  case Nil
  then show ?case by simp
next
  case (Cons index rest)
  show ?case
  proof (cases "nat index < length (children n)")
    case True
    have "node_at r (p @ [nat index]) = Some (children n ! nat index)"
      using Cons.prems(1) True by (simp add: node_at_append)
    from Cons.IH [OF this] Cons.prems(2) True show ?thesis
      by (simp split: if_splits)
  next
    case False
    have "node_at r [] = Some r" by simp
    from Cons.IH [OF this] Cons.prems(2) False show ?thesis
      by (simp split: if_splits)
  qed
qed

lemma skel_setNodeCollapsed:
  fixes n :: "('a, 'fd) node" and cs :: "('a, 'fd) node list"
  shows "skel_of (fst (setNodeCollapsed n c rc)) = skel_of n"
    and "map skel_of (fst (setChildrenCollapsed cs c res)) = map skel_of cs"
  by (induction n c rc and cs c res rule: setNodeCollapsed_setChildrenCollapsed.induct)
     (auto simp: Let_def split: prod.splits)

lemma skel_updateNodeAfterCollapseChange':
  fixes n :: "('a, 'fd) node" and cs :: "('a, 'fd) node list"
  shows "skel_of (fst (updateNodeAfterCollapseChange' n res)) = skel_of n"
    and "map skel_of (fst (updateChildrenAfterCollapseChange cs res)) = map skel_of cs"
  by (induction n res and cs res
        rule: updateNodeAfterCollapseChange'_updateChildrenAfterCollapseChange.induct)
     (auto simp: Let_def split: prod.splits)

lemma skel_update_at:
  "node_at r p = Some n \<Longrightarrow> skel_of n' = skel_of n \<Longrightarrow>
   skel_of (update_at p (\<lambda>_. n') r) = skel_of r"
proof (induction p arbitrary: r)
  case Nil
  then show ?case by simp
next
  case (Cons i p)
  obtain fs cs where r: "r = Node fs cs" by (cases r)
  from Cons.prems(1) r have i: "i < length cs" and na: "node_at (cs ! i) p = Some n"
    by (auto split: if_splits)
  have "skel_of (update_at p (\<lambda>_. n') (cs ! i)) = skel_of (cs ! i)"
    using Cons.IH [OF na Cons.prems(2)] .
  then have "map skel_of (cs[i := update_at p (\<lambda>_. n') (cs ! i)]) = map skel_of cs"
    using i by (simp add: map_update list_update_same_conv)
  then show ?case using r i by simp
qed

lemma node_at_update_at:
  "node_at r p = Some n \<Longrightarrow> node_at (update_at p f r) p = Some (f n)"
  by (induction p arbitrary: r) (auto split: if_splits)

lemma skel_addRenderNodeCount:
  "skel_of (addRenderNodeCount d p n) = skel_of n"
proof (induction p arbitrary: n)
  case Nil
  then show ?case by (cases n) simp
next
  case (Cons i p)
  obtain fs cs where n: "n = Node fs cs" by (cases n)
  show ?case
  proof (cases "i < length cs")
    case True
    have "map skel_of (cs[i := addRenderNodeCount d p (cs ! i)]) = map skel_of cs"
      using True Cons.IH [of "cs ! i"] by (simp add: map_update list_update_same_conv)
    then show ?thesis using n True by simp
  next
    case False
    then show ?thesis using n by simp
  qed
qed

lemma skel_updateAncestorsRenderNodeCount:
  "skel_of (updateAncestorsRenderNodeCount po d r) = skel_of r"
  by (simp add: updateAncestorsRenderNodeCount_def skel_addRenderNodeCount split: option.splits)

lemma skel_setListNodeCollapsed:
  assumes "node_at (root m) path = Some node"
    and "setListNodeCollapsed node path li rv c rc m = (res, node', m1)"
  shows "skel_of (root m1) = skel_of (root m) \<and> skel_of node' = skel_of node"
proof -
  obtain node1 result where s: "setNodeCollapsed node c rc = (node1, result)"
    by (cases "setNodeCollapsed node c rc")
  have k1: "skel_of node1 = skel_of node"
    using skel_setNodeCollapsed(1) [of node c rc] s by simp
  have r1: "skel_of (update_at path (\<lambda>_. node1) (root m)) = skel_of (root m)"
    using skel_update_at [OF assms(1) k1] .
  have n1: "node_at (update_at path (\<lambda>_. node1) (root m)) path = Some node1"
    using node_at_update_at [OF assms(1)] .
  obtain node2 result2 k where u: "updateNodeAfterCollapseChange' node1 [] = (node2, result2, k)"
    by (cases "updateNodeAfterCollapseChange' node1 []")
  have k2: "skel_of node2 = skel_of node1"
    using skel_updateNodeAfterCollapseChange'(1) [of node1 "[]"] u by simp
  have r2: "skel_of (update_at path (\<lambda>_. node2) (update_at path (\<lambda>_. node1) (root m)))
              = skel_of (root m)"
    using skel_update_at [OF n1 k2] r1 by simp
  show ?thesis
    using assms(2) s u k1 k2 r1 r2
    by (auto simp: setListNodeCollapsed_def updateNodeAfterCollapseChange_def Let_def
          skel_updateAncestorsRenderNodeCount split: if_splits)
qed

lemma onlyVisibleChildIndex_loop_bound:
  "found < int i \<Longrightarrow> onlyVisibleChildIndex_loop cs i found < int i + int (length cs)"
  by (induction cs i found rule: onlyVisibleChildIndex_loop.induct) auto

lemma onlyVisibleChildIndex_bound: "onlyVisibleChildIndex cs < int (length cs)"
  using onlyVisibleChildIndex_loop_bound [of "- 1" 0 cs] by (simp add: onlyVisibleChildIndex_def)

lemma setCollapsed_step_decreases:
  assumes "setCollapsed_step opts location c rc m = (Inr (res, Some i), m1)"
  shows "resolved_size (root m1) (location @ [i]) < resolved_size (root m) location"
proof -
  from assms obtain node path li rv vis where
    g: "getTreeNodeWithListIndex (root m) location = Inr (Some (node, path), li, rv, vis)"
    by (auto simp: setCollapsed_step_def split: sum.splits option.splits)
  obtain result node' m' where
    sl: "setListNodeCollapsed node path li rv c (rc = Some True) m = (result, node', m')"
    by (cases "setListNodeCollapsed node path li rv c (rc = Some True) m")
  from assms g sl have m1: "m1 = m'" and i: "i = onlyVisibleChildIndex (children node')" "i > - 1"
    by (auto simp: setCollapsed_step_def Let_def split: if_splits)
  have gt: "getTreeNode (root m) location (root m) [] = Inr (node, path)"
    using getTreeNodeWithListIndex_getTreeNode [OF g] .
  have na: "node_at (root m) path = Some node"
    using getTreeNode_node_at [OF _ gt] by simp
  have sk: "skel_of (root m1) = skel_of (root m)" "skel_of node' = skel_of node"
    using skel_setListNodeCollapsed [OF na sl] m1 by simp_all
  from getTreeNode_skel [OF sk(1) sk(1), of location "[]"] gt
  obtain n1 where g1: "getTreeNode (root m1) location (root m1) [] = Inr (n1, path)"
    and k1: "skel_of n1 = skel_of node" by auto
  have len: "length (children n1) = length (children node')"
    using skel_length [of n1 node'] k1 sk(2) by simp
  have ib: "nat i < length (children n1)" "0 \<le> i"
    using i onlyVisibleChildIndex_bound [of "children node'"] len by auto
  have "getTreeNode (root m1) (location @ [i]) (root m1) [] =
          Inr (children n1 ! nat i, path @ [nat i])"
    using g1 ib by (simp add: getTreeNode_append)
  then have "resolved_size (root m1) (location @ [i]) = size (skel_of (children n1 ! nat i))"
    by (simp add: resolved_size_def)
  moreover have "resolved_size (root m) location = size (skel_of n1)"
    using gt k1 by (simp add: resolved_size_def)
  ultimately show ?thesis using skel_size_child [OF ib(1)] by simp
qed

termination setCollapsed'
  apply (relation "measure (\<lambda>(opts, location, c, rc, m). resolved_size (root m) location)")
   apply simp
  apply (auto intro!: setCollapsed_step_decreases dest: sym)
  done

declare setCollapsed'.simps [simp del]

section \<open>Fields that an operation leaves alone\<close>


lemma tree_of_eq_iff:
  "tree_of f n = tree_of f n' \<longleftrightarrow>
     f (attrs n) = f (attrs n') \<and> map (tree_of f) (children n) = map (tree_of f) (children n')"
  by (cases n; cases n') simp

lemma tree_of_update_at:
  "node_at r p = Some n \<Longrightarrow>
   (tree_of f (update_at p g r) = tree_of f r) = (tree_of f (g n) = tree_of f n)"
proof (induction p arbitrary: r)
  case Nil
  then show ?case by simp
next
  case (Cons i p)
  obtain fs cs where r: "r = Node fs cs" by (cases r)
  from Cons.prems r have i: "i < length cs" and na: "node_at (cs ! i) p = Some n"
    by (auto split: if_splits)
  have "(map (tree_of f) (cs[i := update_at p g (cs ! i)]) = map (tree_of f) cs)
          = (tree_of f (update_at p g (cs ! i)) = tree_of f (cs ! i))"
    using i by (auto simp add: map_update list_update_same_conv)
  then show ?case using r i Cons.IH [OF na] by simp
qed

lemma tree_of_update_at_cong:
  "node_at r p = Some n \<Longrightarrow> tree_of f (g n) = tree_of f (h n) \<Longrightarrow>
   tree_of f (update_at p g r) = tree_of f (update_at p h r)"
proof (induction p arbitrary: r)
  case Nil
  then show ?case by simp
next
  case (Cons i p)
  obtain fs cs where r: "r = Node fs cs" by (cases r)
  from Cons.prems r have i: "i < length cs" and na: "node_at (cs ! i) p = Some n"
    by (auto split: if_splits)
  show ?case using r i Cons.IH [OF na Cons.prems(2)] by (simp add: map_update)
qed

lemma tree_of_addRenderNodeCount:
  assumes "\<And>fs k. f (fs\<lparr>renderNodeCount := k\<rparr>) = f fs"
  shows "tree_of f (addRenderNodeCount d p n) = tree_of f n"
proof (induction p arbitrary: n)
  case Nil
  then show ?case using assms by (cases n) simp
next
  case (Cons i p)
  obtain fs cs where n: "n = Node fs cs" by (cases n)
  show ?case
  proof (cases "i < length cs")
    case True
    have "map (tree_of f) (cs[i := addRenderNodeCount d p (cs ! i)]) = map (tree_of f) cs"
      using True Cons.IH [of "cs ! i"] by (simp add: map_update list_update_same_conv)
    then show ?thesis using n True assms by simp
  next
    case False
    then show ?thesis using n assms by simp
  qed
qed

lemma tree_of_updateAncestorsRenderNodeCount:
  assumes "\<And>fs k. f (fs\<lparr>renderNodeCount := k\<rparr>) = f fs"
  shows "tree_of f (updateAncestorsRenderNodeCount po d r) = tree_of f r"
  using tree_of_addRenderNodeCount [of f, OF assms]
  by (simp add: updateAncestorsRenderNodeCount_def split: option.splits)

lemma tree_of_updateNodeAfterCollapseChange':
  fixes n :: "('a, 'fd) node" and cs :: "('a, 'fd) node list"
  assumes "\<And>fs k. f (fs\<lparr>renderNodeCount := k\<rparr>) = f fs"
  shows "tree_of f (fst (updateNodeAfterCollapseChange' n res)) = tree_of f n"
    and "map (tree_of f) (fst (updateChildrenAfterCollapseChange cs res)) = map (tree_of f) cs"
  by (induction n res and cs res
        rule: updateNodeAfterCollapseChange'_updateChildrenAfterCollapseChange.induct)
     (auto simp: Let_def assms split: prod.splits)

lemma tree_of_setNodeCollapsed:
  fixes n :: "('a, 'fd) node" and cs :: "('a, 'fd) node list"
  assumes "\<And>fs k. f (fs\<lparr>collapsed := k\<rparr>) = f fs"
  shows "tree_of f (fst (setNodeCollapsed n c rc)) = tree_of f n"
    and "map (tree_of f) (fst (setChildrenCollapsed cs c res)) = map (tree_of f) cs"
  by (induction n c rc and cs c res rule: setNodeCollapsed_setChildrenCollapsed.induct)
     (auto simp: Let_def assms split: prod.splits)


lemma setNodeCollapsed_attrs:
  "attrs (fst (setNodeCollapsed n c rc)) =
     (if n_collapsible n then (attrs n)\<lparr>collapsed := c\<rparr> else attrs n)"
  by (cases n) (auto simp: Let_def split: prod.splits)

lemma updateNodeAfterCollapseChange'_attrs:
  "f (attrs (fst (updateNodeAfterCollapseChange' n res))) = f (attrs n)"
  if "\<And>fs k. f (fs\<lparr>renderNodeCount := k\<rparr>) = f fs"
  using tree_of_updateNodeAfterCollapseChange'(1) [of f n res, OF that]
  by (simp add: tree_of_eq_iff)


section \<open>Valid locations\<close>

lemma walk_append:
  "walk n (loc @ [i]) =
     (case walk n loc of
        None \<Rightarrow> None
      | Some k \<Rightarrow> if 0 \<le> i \<and> i < int (length (children k))
                  then Some (children k ! nat i) else None)"
  by (induction loc arbitrary: n) auto

lemma walk_node_at: "walk n loc = Some node \<Longrightarrow> node_at n (map nat loc) = Some node"
  by (induction loc arbitrary: n) (auto split: if_splits)

lemma getTreeNode_valid:
  "walk n loc = Some node \<Longrightarrow> getTreeNode r loc n p = Inr (node, p @ map nat loc)"
proof (induction loc arbitrary: n p)
  case Nil
  then show ?case by simp
next
  case (Cons i loc)
  from Cons.prems have i: "0 \<le> i" "i < int (length (children n))"
    and w: "walk (children n ! nat i) loc = Some node"
    by (auto split: if_splits)
  have "nat i < length (children n)" using i by linarith
  then show ?case using i Cons.IH [OF w, of "p @ [nat i]"] by simp
qed

lemma getParentNodeWithListIndex_valid:
  "loc \<noteq> [] \<Longrightarrow> walk n (butlast loc) = Some pn \<Longrightarrow> 0 \<le> last loc \<Longrightarrow>
   last loc \<le> int (length (children pn)) \<Longrightarrow>
   \<exists>li' rv' vis'. getParentNodeWithListIndex r loc n p li rv vis =
      Inr (pn, p @ map nat (butlast loc), li', rv', vis')"
proof (induction loc arbitrary: n p li rv vis)
  case Nil
  then show ?case by simp
next
  case (Cons i loc)
  show ?case
  proof (cases "loc = []")
    case True
    then show ?thesis using Cons.prems by (auto simp: Let_def)
  next
    case False
    from Cons.prems False have i: "0 \<le> i" "i < int (length (children n))"
      and w: "walk (children n ! nat i) (butlast loc) = Some pn"
      by (auto split: if_splits)
    have ni: "nat i < length (children n)" using i by linarith
    from Cons.prems False have l: "0 \<le> last loc" "last loc \<le> int (length (children pn))"
      by auto
    from Cons.IH [OF False w l, of "p @ [nat i]"] show ?thesis
      using False i ni by (simp add: Let_def)
  qed
qed

lemma getTreeNodeWithListIndex_valid:
  assumes "walk r loc = Some node"
  shows "\<exists>li rv vis. getTreeNodeWithListIndex r loc = Inr (Some (node, map nat loc), li, rv, vis)"
proof (cases "loc = []")
  case True
  then show ?thesis using assms by (auto simp: getTreeNodeWithListIndex_def)
next
  case False
  then have loc: "loc = butlast loc @ [last loc]" by simp
  from assms obtain pn where
    w: "walk r (butlast loc) = Some pn" and i: "0 \<le> last loc" "last loc < int (length (children pn))"
    and nd: "node = children pn ! nat (last loc)"
    using walk_append [of r "butlast loc" "last loc"] loc
    by (auto split: option.splits if_splits)
  have ni: "nat (last loc) < length (children pn)" using i by linarith
  from getParentNodeWithListIndex_valid [OF False w i(1), of r "[]" 0 True True] i
  obtain li' rv' vis' where
    g: "getParentNodeWithListIndex r loc r [] 0 True True =
          Inr (pn, map nat (butlast loc), li', rv', vis')"
    by auto
  have "map nat loc = map nat (butlast loc) @ [nat (last loc)]"
    using loc by (metis list.simps(8,9) map_append)
  then show ?thesis
    using False g i ni nd by (simp add: getTreeNodeWithListIndex_def Let_def)
qed

lemma walk_tree_of:
  "tree_of f r = tree_of f r' \<Longrightarrow> walk r loc = Some n \<Longrightarrow>
   \<exists>n'. walk r' loc = Some n' \<and> tree_of f n' = tree_of f n"
proof (induction loc arbitrary: r r')
  case Nil
  then show ?case by simp
next
  case (Cons i loc)
  from Cons.prems(2) have i: "0 \<le> i" "i < int (length (children r))"
    and w: "walk (children r ! nat i) loc = Some n"
    by (auto split: if_splits)
  have m: "map (tree_of f) (children r) = map (tree_of f) (children r')"
    using Cons.prems(1) by (simp add: tree_of_eq_iff)
  then have len: "length (children r') = length (children r)"
    using map_eq_imp_length_eq by metis
  have ni: "nat i < length (children r)" using i by linarith
  have "tree_of f (children r ! nat i) = tree_of f (children r' ! nat i)"
    using m ni len by (metis nth_map)
  from Cons.IH [OF this w] show ?case using i len by simp
qed

lemma walk_update_at:
  "walk r loc = Some n \<Longrightarrow> walk (update_at (map nat loc) g r) loc = Some (g n)"
proof (induction loc arbitrary: r)
  case Nil
  then show ?case by simp
next
  case (Cons i loc)
  from Cons.prems have i: "0 \<le> i" "i < int (length (children r))"
    and w: "walk (children r ! nat i) loc = Some n"
    by (auto split: if_splits)
  have ni: "nat i < length (children r)" using i by linarith
  show ?case using i ni Cons.IH [OF w] by simp
qed

section \<open>The render list against the traversal\<close>

text \<open>
  Claim C1 fails on the code. Root children \<open>a\<close>, \<open>b\<close> (identities 1, 2) are inserted
  with every node visible; the filter then hides \<open>a\<close> and \<open>refilter\<close> runs: the early
  return of line 413 leaves \<open>a.renderNodeCount = 1\<close>. A node \<open>c\<close> (identity 3) spliced in
  between \<open>a\<close> and \<open>b\<close> gets list index 1 from that stale count and lands behind \<open>b\<close> in
  the render list, while the traversal has it before \<open>b\<close>.
\<close>

theorem refilter_then_splice_misplaces:
  "list_proj model_ab = [1, 2] \<and> traversal model_ab = [1, 2] \<and>
   list_proj model_ab_refiltered = [2] \<and> traversal model_ab_refiltered = [2] \<and>
   map n_rnc (children (root model_ab_refiltered)) = [1, 1] \<and>
   map n_visible (children (root model_ab_refiltered)) = [False, True] \<and>
   map n_id (children (root model_acb)) = [1, 3, 2] \<and>
   list_proj model_acb = [2, 3] \<and> traversal model_acb = [3, 2]"
  by code_simp

section \<open>Errors of \<open>splice\<close>\<close>

lemma getParentNodeWithListIndex_invalid:
  "walk node pre = Some n \<Longrightarrow> i < 0 \<or> int (length (children n)) < i \<Longrightarrow>
   getParentNodeWithListIndex r (pre @ i # post) node path li rv vis = Inl InvalidTreeLocation"
proof (induction pre arbitrary: node path li rv vis)
  case Nil
  then show ?case by auto
next
  case (Cons j pre)
  from Cons.prems(1) have j: "0 \<le> j" "j < int (length (children node))"
    and w: "walk (children node ! nat j) pre = Some n"
    by (auto split: if_splits)
  have jn: "nat j < length (children node)" using j by linarith
  have "getParentNodeWithListIndex r ((j # pre) @ i # post) node path li rv vis =
        getParentNodeWithListIndex r (pre @ i # post) (children node ! nat j) (path @ [nat j])
          (li + sum_list (map n_rnc (take (nat j) (children node))) + 1)
          (rv \<and> \<not> n_collapsed node) (vis \<and> n_visible node)"
    using j jn by (simp add: Let_def)
  then show ?case using Cons.IH [OF w Cons.prems(2)] by simp
qed

text \<open>
  Claim C4, as the code has it. \<open>splice\<close> at the empty location throws the
  invalid-location error. \<open>splice\<close> at a location that walks through existing children
  up to some level and has there an index that is negative or greater than the number
  of children throws the invalid-location error, whatever follows that level. An index
  equal to the number of children is not refused by the test of line 522: on the last
  level it is the place after the last child.
\<close>

theorem splice_invalid_location:
  "fst (splice opts [] deleteCount toInsert m) = Inl InvalidTreeLocation \<and>
   (walk (root m) pre = Some n \<and> (i < 0 \<or> int (length (children n)) < i) \<longrightarrow>
      fst (splice opts (pre @ i # post) deleteCount toInsert m) = Inl InvalidTreeLocation)"
  by (auto simp: splice_def getParentNodeWithListIndex_invalid)

theorem splice_invalid_location_witness:
  "walk (root (snd (splice no_filter [0] 0 [leaf ''a''] empty_model))) [0] =
     Some (Node \<lparr>nid = 1, element = ''a'', parent = Some 0, depth = 1,
                  visibleChildrenCount = 0, visibleChildIndex = 0, collapsible = False,
                  collapsed = False, renderNodeCount = 1, visible = True,
                  filterData = None\<rparr> [])
   \<and> fst (splice no_filter [0, 1, 5] 0 [leaf ''b'']
           (snd (splice no_filter [0] 0 [leaf ''a''] empty_model))) = Inl InvalidTreeLocation"
proof -
  let ?m = "snd (splice no_filter [0] 0 [leaf ''a''] empty_model)"
  let ?n = "Node \<lparr>nid = 1, element = ''a'', parent = Some 0, depth = 1,
                  visibleChildrenCount = 0, visibleChildIndex = 0, collapsible = False,
                  collapsed = False, renderNodeCount = 1, visible = True,
                  filterData = None\<rparr> [] :: (string, unit) node"
  have w: "walk (root ?m) [0] = Some ?n"
    by code_simp
  have "walk (root ?m) [0] = Some ?n \<and> ((1::int) < 0 \<or> int (length (children ?n)) < 1)"
    using w by simp
  with splice_invalid_location [of no_filter 0 "[leaf ''b'']" ?m "[0]" ?n 1 "[5]"] w
  show ?thesis by simp
qed

text \<open>
  Claim C4 as stated fails: in the empty model the index 0 is the number of children
  of the root, and the call returns (no deleted elements) instead of throwing.
\<close>

theorem splice_append_counterexample:
  "fst (splice no_filter [0] 0 [leaf ''a''] empty_model) = Inr []"
  by code_simp

text \<open>
  Claim C5: a call of \<open>splice\<close> that throws the invalid-location error leaves the model
  (the tree with all its fields, the render list and the identity counter) as it was.
\<close>

theorem splice_error_no_mutation:
  "fst (splice opts location deleteCount toInsert m) = Inl InvalidTreeLocation \<Longrightarrow>
   snd (splice opts location deleteCount toInsert m) = m"
  by (auto simp: splice_def Let_def split: sum.splits prod.splits if_splits)

theorem splice_error_no_mutation_witness:
  "fst (splice no_filter [2] 0 [leaf ''a''] empty_model) = Inl InvalidTreeLocation \<and>
   snd (splice no_filter [2] 0 [leaf ''a''] empty_model) = empty_model"
proof -
  have h: "fst (splice no_filter [2] 0 [leaf ''a''] empty_model) = Inl InvalidTreeLocation"
    by code_simp
  from splice_error_no_mutation [OF h] h show ?thesis by simp
qed

section \<open>The visible child index\<close>

text \<open>
  Claim C6 fails on the code. Appending \<open>b\<close> after the only root child \<open>a\<close>: the loop of
  lines 110-117 starts at \<open>lastIndex = children.length\<close> and is not entered, so the
  numbering of the inserted nodes starts at 0 again; both visible children end with
  \<open>visibleChildIndex = 0\<close>.
\<close>

theorem append_repeats_visibleChildIndex:
  "map n_visible (children (root (snd (splice no_filter [1] 0 [leaf ''b'']
      (snd (splice no_filter [0] 0 [leaf ''a''] empty_model)))))) = [True, True] \<and>
   map n_vci (children (root (snd (splice no_filter [1] 0 [leaf ''b'']
      (snd (splice no_filter [0] 0 [leaf ''a''] empty_model)))))) = [0, 0]"
  by code_simp

section \<open>\<open>setCollapsed\<close> without the auto-expand branch\<close>

lemma update_at_idem:
  "update_at p (\<lambda>_. x) (update_at p (\<lambda>_. y) r) = update_at p (\<lambda>_. x) r"
  by (induction p arbitrary: r) auto

lemma setListNodeCollapsed_tree_of:
  assumes "node_at (root m) path = Some node"
    and "setListNodeCollapsed node path li rv c rc m = (res, node', m1)"
    and "\<And>fs k. f (fs\<lparr>renderNodeCount := k\<rparr>) = f fs"
  shows "res = snd (setNodeCollapsed node c rc)"
    and "tree_of f (root m1) = tree_of f (update_at path (\<lambda>_. fst (setNodeCollapsed node c rc)) (root m))"
    and "tree_of f node' = tree_of f (fst (setNodeCollapsed node c rc))"
proof -
  obtain node1 result where s: "setNodeCollapsed node c rc = (node1, result)"
    by (cases "setNodeCollapsed node c rc")
  let ?r1 = "update_at path (\<lambda>_. node1) (root m)"
  have n1: "node_at ?r1 path = Some node1"
    using node_at_update_at [OF assms(1)] .
  obtain node2 result2 k where u: "updateNodeAfterCollapseChange' node1 [] = (node2, result2, k)"
    by (cases "updateNodeAfterCollapseChange' node1 []")
  have k2: "tree_of f node2 = tree_of f node1"
    using tree_of_updateNodeAfterCollapseChange'(1) [of f node1 "[]", OF assms(3)] u by simp
  have r2: "tree_of f (update_at path (\<lambda>_. node2) ?r1) = tree_of f ?r1"
    using tree_of_update_at [OF n1, of f "\<lambda>_. node2"] k2 by simp
  show "res = snd (setNodeCollapsed node c rc)"
    using assms(2) s u
    by (auto simp: setListNodeCollapsed_def updateNodeAfterCollapseChange_def Let_def
          split: if_splits)
  show "tree_of f (root m1) = tree_of f (update_at path (\<lambda>_. fst (setNodeCollapsed node c rc)) (root m))"
    using assms(2) s u r2 tree_of_updateAncestorsRenderNodeCount [of f, OF assms(3)]
    by (auto simp: setListNodeCollapsed_def updateNodeAfterCollapseChange_def Let_def
          split: if_splits)
  show "tree_of f node' = tree_of f (fst (setNodeCollapsed node c rc))"
    using assms(2) s u k2
    by (auto simp: setListNodeCollapsed_def updateNodeAfterCollapseChange_def Let_def
          split: if_splits)
qed

lemma setCollapsed'_no_auto:
  "\<not> autoExpandSingleChildren opts \<or> c \<or> rc = Some True \<Longrightarrow>
   setCollapsed' opts loc c rc m =
     (case getTreeNodeWithListIndex (root m) loc of
        Inl e \<Rightarrow> (Inl e, m)
      | Inr (None, li, rv, vis) \<Rightarrow> (Inl TypeError, m)
      | Inr (Some (node, path), li, rv, vis) \<Rightarrow>
          (case setListNodeCollapsed node path li rv c (rc = Some True) m of
             (res, node', m1) \<Rightarrow> (Inr res, m1)))"
  by (subst setCollapsed'.simps)
     (auto simp: setCollapsed_step_def Let_def split: sum.splits option.splits prod.splits)




section \<open>Visibility is resolved bottom-up\<close>

declare visibility_resolved.simps [simp del]

lemma visibility_resolved_vci:
  "visibility_resolved opts bh pv (Node ((attrs n)\<lparr>visibleChildIndex := k\<rparr>) (children n)) =
   visibility_resolved opts bh pv n"
  by (cases n) (simp add: visibility_resolved.simps Let_def split: TreeVisibility.split)

lemma filter_visible_count_pos:
  "(0 < int (length (filter P xs))) = (\<exists>x \<in> set xs. P x)"
  by (induction xs) auto

lemma createTreeNode_visibility:
  fixes opts :: "('a, 'fd) options"
  shows "createTreeNode opts el pid pdepth pv revealed tle nx = (node, tle', nx') \<Longrightarrow>
         visibility_resolved opts True (Some pv) node"
    and "createNodes opts els pid pdepth pv revealed tle nx start = (nodes, tle', nx', cnt, rsum) \<Longrightarrow>
         (\<forall>n \<in> set nodes. visibility_resolved opts True (Some pv) n) \<and>
         cnt = int (length (filter n_visible nodes))"
proof (induction opts el pid pdepth pv revealed tle nx and opts els pid pdepth pv revealed tle nx start
       arbitrary: node tle' nx' and nodes tle' nx' cnt rsum
       rule: createTreeNode_createNodes.induct)
  case (1 opts e cs cb cd pid pdepth parentVisibility revealed tle nx)
  obtain visibility fdata where f: "filterNode opts e (Some parentVisibility) = (visibility, fdata)"
    by (cases "filterNode opts e (Some parentVisibility)")
  let ?c0 = "(case cd of None \<Rightarrow> collapseByDefault opts | Some c \<Rightarrow> c)"
  obtain childNodes tle2 nx2 cnt rsum where
    c: "createNodes opts cs nx (pdepth + 1) visibility
          (revealed \<and> visibility \<noteq> Hidden \<and> \<not> ?c0)
          (if revealed then tle @ [nx] else tle) (Suc nx) 0 = (childNodes, tle2, nx2, cnt, rsum)"
    by (cases "createNodes opts cs nx (pdepth + 1) visibility
          (revealed \<and> visibility \<noteq> Hidden \<and> \<not> ?c0)
          (if revealed then tle @ [nx] else tle) (Suc nx) 0") auto
  have ih: "(\<forall>n \<in> set childNodes. visibility_resolved opts True (Some visibility) n) \<and>
            cnt = int (length (filter n_visible childNodes))"
    using "1.IH" [OF refl refl f [symmetric] refl refl, of childNodes tle2 nx2 cnt rsum] c
    by simp
  from "1.prems" f c have node: "children node = childNodes"
    "element (attrs node) = e"
    "n_visible node = (if visibility = Recurse then cnt > 0 else visibility = Visible)"
    "n_vcc node = cnt"
    by (auto simp: Let_def split: if_splits)
  show ?case
    using ih node f filter_visible_count_pos [of n_visible childNodes]
    by (cases node; cases visibility) (auto simp: visibility_resolved.simps Let_def)
next
  case (2 opts pid pdepth parentVisibility revealed tle nx start)
  then show ?case by simp
next
  case (3 opts el els pid pdepth parentVisibility revealed tle nx start)
  obtain child tle1 nx1 where
    c: "createTreeNode opts el pid pdepth parentVisibility revealed tle nx = (child, tle1, nx1)"
    by (cases "createTreeNode opts el pid pdepth parentVisibility revealed tle nx")
  let ?start' = "if n_visible child then start + 1 else start"
  obtain rest tle2 nx2 cnt' rsum' where
    r: "createNodes opts els pid pdepth parentVisibility revealed tle1 nx1 ?start'
          = (rest, tle2, nx2, cnt', rsum')"
    by (cases "createNodes opts els pid pdepth parentVisibility revealed tle1 nx1 ?start'") auto
  have ih1: "visibility_resolved opts True (Some parentVisibility) child"
    using "3.IH"(1) [OF c] .
  have ih2: "(\<forall>n \<in> set rest. visibility_resolved opts True (Some parentVisibility) n) \<and>
             cnt' = int (length (filter n_visible rest))"
    using "3.IH"(2) [OF c [symmetric] refl refl refl r] by simp
  from "3.prems" c r show ?case
    using ih1 ih2 by (auto simp: Let_def visibility_resolved_vci split: if_splits)
qed


lemma updateChildrenAfterFilterChange_visibility:
  fixes opts :: "('a, 'fd) options"
  assumes "\<And>c pv result revealed n' result' b. c \<in> set cs \<Longrightarrow>
             updateNodeAfterFilterChange' opts False c pv result revealed = (n', result', b) \<Longrightarrow>
             visibility_resolved opts False pv n' \<and> b = n_visible n'"
    and "updateChildrenAfterFilterChange opts cs v result revealed hvd vci = (cs', result', hvd', vci')"
  shows "(\<forall>c \<in> set cs'. visibility_resolved opts False v c) \<and>
         hvd' = (hvd \<or> (\<exists>c \<in> set cs'. n_visible c)) \<and>
         vci' = vci + int (length (filter n_visible cs'))"
  using assms
proof (induction cs arbitrary: result hvd vci cs' result' hvd' vci')
  case Nil
  then show ?case by simp
next
  case (Cons child cs)
  obtain child1 result1 b where
    c: "updateNodeAfterFilterChange' opts False child v result revealed = (child1, result1, b)"
    by (cases "updateNodeAfterFilterChange' opts False child v result revealed")
  have p: "visibility_resolved opts False v child1 \<and> b = n_visible child1"
    using Cons.prems(1) [OF _ c] by simp
  let ?vci1 = "if n_visible child1 then vci + 1 else vci"
  obtain cs1 result2 hvd2 vci2 where
    r: "updateChildrenAfterFilterChange opts cs v result1 revealed (b \<or> hvd) ?vci1
          = (cs1, result2, hvd2, vci2)"
    by (cases "updateChildrenAfterFilterChange opts cs v result1 revealed (b \<or> hvd) ?vci1") auto
  have ih: "(\<forall>c \<in> set cs1. visibility_resolved opts False v c) \<and>
            hvd2 = ((b \<or> hvd) \<or> (\<exists>c \<in> set cs1. n_visible c)) \<and>
            vci2 = ?vci1 + int (length (filter n_visible cs1))"
  proof (rule Cons.IH [OF _ r])
    fix c pv result revealed n' result' b
    assume "c \<in> set cs"
      and "updateNodeAfterFilterChange' opts False c pv result revealed = (n', result', b)"
    then show "visibility_resolved opts False pv n' \<and> b = n_visible n'"
      using Cons.prems(1) [of c pv result revealed n' result' b] by simp
  qed
  from Cons.prems(2) c r show ?case
    using p ih by (auto simp: Let_def visibility_resolved_vci split: if_splits)
qed

lemma updateNodeAfterFilterChange'_visibility:
  fixes opts :: "('a, 'fd) options"
  shows "updateNodeAfterFilterChange' opts isRoot n pv result revealed = (n', result', b) \<Longrightarrow>
         (\<not> isRoot \<longrightarrow> visibility_resolved opts False pv n' \<and> b = n_visible n') \<and>
         (isRoot \<longrightarrow> (\<forall>c \<in> set (children n'). visibility_resolved opts False None c))"
proof (induction n arbitrary: isRoot pv result revealed n' result' b)
  case (Node fs cs)
  have kids: "\<And>c pv result revealed n' result' b. c \<in> set cs \<Longrightarrow>
             updateNodeAfterFilterChange' opts False c pv result revealed = (n', result', b) \<Longrightarrow>
             visibility_resolved opts False pv n' \<and> b = n_visible n'"
    using Node.IH by blast
  show ?case
  proof (cases isRoot)
    case True
    let ?fs1 = "fs\<lparr>renderNodeCount := 0\<rparr>"
    obtain cs1 result2 hvd2 vci2 where
      r: "updateChildrenAfterFilterChange opts cs None result (revealed \<and> \<not> collapsed fs) False 0
            = (cs1, result2, hvd2, vci2)"
      by (cases "updateChildrenAfterFilterChange opts cs None result
                   (revealed \<and> \<not> collapsed fs) False 0") auto
    note q = updateChildrenAfterFilterChange_visibility [OF kids r]
    from Node.prems True r have "children n' = cs1"
      by (auto simp: Let_def split: if_splits)
    then show ?thesis using q True by simp
  next
    case False
    obtain v d where f: "filterNode opts (element fs) pv = (v, d)"
      by (cases "filterNode opts (element fs) pv")
    show ?thesis
    proof (cases "v = Hidden")
      case True
      then show ?thesis using Node.prems False f
        by (auto simp: visibility_resolved.simps Let_def)
    next
      case nh: False
      let ?result1 = "if revealed then result @ [nid fs] else result"
      obtain cs1 result2 hvd2 vci2 where
        r: "updateChildrenAfterFilterChange opts cs (Some v) ?result1
              (revealed \<and> \<not> collapsed fs) False 0 = (cs1, result2, hvd2, vci2)"
        by (cases "updateChildrenAfterFilterChange opts cs (Some v) ?result1
                     (revealed \<and> \<not> collapsed fs) False 0") auto
      note q = updateChildrenAfterFilterChange_visibility [OF kids r]
      from Node.prems False f nh r have n': "children n' = cs1"
        "element (attrs n') = element fs"
        "n_visible n' = (if v = Recurse then hvd2 else v = Visible)"
        "n_vcc n' = vci2" "b = n_visible n'"
        by (auto simp: Let_def split: if_splits)
      show ?thesis
        using q n' f nh False filter_visible_count_pos [of n_visible cs1]
        by (cases n'; cases v) (auto simp: visibility_resolved.simps Let_def)
    qed
  qed
qed

text \<open>
  Claim C8: every node that \<open>createTreeNode\<close> makes, and every node that \<open>refilter\<close>
  evaluates again, has its visibility resolved from its filter result: \<open>Recurse\<close> is
  visible iff a child is visible, which is \<open>visibleChildrenCount > 0\<close>; \<open>Visible\<close> is
  visible; \<open>Hidden\<close> is not visible, whatever its descendants are. \<open>refilter\<close> does not
  evaluate the root and passes \<open>undefined\<close> as parent visibility to its children.
\<close>

theorem recurse_visibility_resolved:
  fixes opts :: "('a, 'fd) options"
  shows "(createTreeNode opts el pid pdepth pv revealed tle nx = (node, tle', nx') \<longrightarrow>
            visibility_resolved opts True (Some pv) node) \<and>
         (\<forall>c \<in> set (children (root (refilter opts m))).
            visibility_resolved opts False None c)"
proof -
  obtain r' res b where
    u: "updateNodeAfterFilterChange' opts True (root m)
          (Some (if n_visible (root m) then Visible else Hidden)) [] True = (r', res, b)"
    by (cases "updateNodeAfterFilterChange' opts True (root m)
          (Some (if n_visible (root m) then Visible else Hidden)) [] True")
  have "root (refilter opts m) = r'"
    using u by (simp add: refilter_def updateNodeAfterFilterChange_def Let_def)
  then show ?thesis
    using updateNodeAfterFilterChange'_visibility [OF u] createTreeNode_visibility(1)
    by auto
qed

theorem recurse_visibility_resolved_witness:
  "n_visible (fst (createTreeNode recurse_filter element_a 0 0 Visible True [] 1)) \<and>
   map n_visible (children (fst (createTreeNode recurse_filter element_a 0 0 Visible True [] 1)))
     = [True, False] \<and>
   visibility_resolved recurse_filter True (Some Visible)
     (fst (createTreeNode recurse_filter element_a 0 0 Visible True [] 1)) \<and>
   map n_visible (children (root (refilter recurse_filter model_a_b))) = [True, True] \<and>
   visibility_resolved recurse_filter False None
     (children (root (refilter recurse_filter model_a_b)) ! 0)"
proof -
  let ?c = "createTreeNode recurse_filter element_a 0 0 Visible True [] 1"
  have e: "?c = (fst ?c, fst (snd ?c), snd (snd ?c))" by simp
  have v1: "n_visible (fst ?c)"
    "map n_visible (children (fst ?c)) = [True, False]"
    by code_simp+
  have v2: "map n_visible (children (root (refilter recurse_filter model_a_b))) = [True, True]"
    by code_simp
  then have "length (children (root (refilter recurse_filter model_a_b))) = 2"
    using length_map [of n_visible "children (root (refilter recurse_filter model_a_b))"] by simp
  then have m: "children (root (refilter recurse_filter model_a_b)) ! 0
          \<in> set (children (root (refilter recurse_filter model_a_b)))"
    by simp
  from recurse_visibility_resolved
         [of recurse_filter element_a 0 0 Visible True "[]" 1 "fst ?c" "fst (snd ?c)"
             "snd (snd ?c)" model_a_b]
  have "visibility_resolved recurse_filter True (Some Visible) (fst ?c)"
    and "\<forall>c \<in> set (children (root (refilter recurse_filter model_a_b))).
            visibility_resolved recurse_filter False None c"
    using e by blast+
  then show ?thesis using v1 v2 m by blast
qed

section \<open>\<open>expandTo\<close>\<close>

abbreviation cc :: "('a, 'fd) node_fields \<Rightarrow> bool \<times> bool" where
  "cc \<equiv> \<lambda>fs. (collapsible fs, collapsed fs)"

lemma expandAncestors_snoc:
  "node_at r p = Some n \<Longrightarrow>
   expandAncestors (p @ [i]) r = expandAncestors p (update_at p expand_node r)"
proof (induction p arbitrary: r)
  case Nil
  then show ?case by (simp add: expand_node_def)
next
  case (Cons j p)
  from Cons.prems have j: "j < length (children r)"
    and na: "node_at (children r ! j) p = Some n"
    by (auto split: if_splits)
  show ?case using j Cons.IH [OF na] by simp
qed

lemma tree_of_nth:
  "tree_of f n = tree_of f n' \<Longrightarrow> i < length (children n) \<Longrightarrow>
   tree_of f (children n ! i) = tree_of f (children n' ! i)"
  by (metis length_map nth_map tree_of_eq_iff)

lemma tree_of_length:
  "tree_of f n = tree_of f n' \<Longrightarrow> length (children n) = length (children n')"
  by (metis length_map tree_of_eq_iff)

lemma tree_of_expandAncestors:
  fixes r1 r2 :: "('a, 'fd) node"
  shows "tree_of cc r1 = tree_of cc r2 \<Longrightarrow>
   tree_of cc (expandAncestors p r1) = tree_of cc (expandAncestors p r2)"
proof (induction p arbitrary: r1 r2)
  case Nil
  then show ?case by simp
next
  case (Cons i p)
  have len: "length (children r1) = length (children r2)"
    using tree_of_length [OF Cons.prems] .
  have at: "cc (attrs r1) = cc (attrs r2)"
    and m: "map (tree_of cc) (children r1) = map (tree_of cc) (children r2)"
    using Cons.prems by (simp_all add: tree_of_eq_iff)
  show ?case
  proof (cases "i < length (children r1)")
    case True
    have "tree_of cc (expandAncestors p (children r1 ! i))
            = tree_of cc (expandAncestors p (children r2 ! i))"
      using Cons.IH [OF tree_of_nth [OF Cons.prems True]] .
    then show ?thesis using True len at m by (simp add: map_update)
  next
    case False
    then show ?thesis using len at m by simp
  qed
qed

lemma setNodeCollapsed_expand: "fst (setNodeCollapsed n False False) = expand_node n"
  by (cases n) (auto simp: Let_def expand_node_def)

lemma expandTo_loop_snoc:
  "expandTo_loop opts (p @ [k]) (l @ [i]) m =
     (case node_at (root m) p of
        None \<Rightarrow> (Inl TypeError, m)
      | Some node \<Rightarrow>
          if n_collapsed node
          then (case setCollapsed' opts l False None m of
                  (Inl e, m1) \<Rightarrow> (Inl e, m1)
                | (Inr r, m1) \<Rightarrow> expandTo_loop opts p l m1)
          else expandTo_loop opts p l m)"
  apply (subst expandTo_loop.simps)
  unfolding butlast_snoc
  by simp

lemma expand_step:
  fixes opts :: "('a, 'fd) options"
  assumes na: "\<not> autoExpandSingleChildren opts"
    and w: "walk (root m) loc = Some p"
  shows "\<exists>b m1. setCollapsed' opts loc False None m = (Inr b, m1) \<and>
           tree_of cc (root m1) = tree_of cc (update_at (map nat loc) expand_node (root m))"
proof -
  from getTreeNodeWithListIndex_valid [OF w] obtain li rv vis where
    gl: "getTreeNodeWithListIndex (root m) loc = Inr (Some (p, map nat loc), li, rv, vis)"
    by blast
  obtain res node' m1 where
    sl: "setListNodeCollapsed p (map nat loc) li rv False False m = (res, node', m1)"
    by (cases "setListNodeCollapsed p (map nat loc) li rv False False m")
  have s: "setCollapsed' opts loc False None m = (Inr res, m1)"
    using gl sl na by (simp add: setCollapsed'_no_auto)
  have "tree_of cc (root m1) =
          tree_of cc (update_at (map nat loc) (\<lambda>_. fst (setNodeCollapsed p False False)) (root m))"
    using setListNodeCollapsed_tree_of(2) [OF walk_node_at [OF w] sl, of cc] by simp
  also have "\<dots> = tree_of cc (update_at (map nat loc) expand_node (root m))"
    using tree_of_update_at_cong [OF walk_node_at [OF w], of cc "\<lambda>_. fst (setNodeCollapsed p False False)" expand_node]
    by (simp add: setNodeCollapsed_expand)
  finally show ?thesis using s by blast
qed

lemma expandTo_loop_valid:
  fixes opts :: "('a, 'fd) options"
  assumes na: "\<not> autoExpandSingleChildren opts"
  shows "walk (root m) loc = Some t \<Longrightarrow>
         \<exists>m'. expandTo_loop opts (map nat loc) loc m = (Inr (), m') \<and>
               tree_of cc (root m') = tree_of cc (expandAncestors (map nat loc) (root m))"
proof (induction loc arbitrary: m t rule: rev_induct)
  case Nil
  then show ?case by (subst expandTo_loop.simps) simp
next
  case (snoc i loc)
  from snoc.prems obtain p where w: "walk (root m) loc = Some p"
    by (auto simp: walk_append split: option.splits)
  have np: "node_at (root m) (map nat loc) = Some p" using walk_node_at [OF w] .
  let ?u = "update_at (map nat loc) expand_node (root m)"
  have wu: "walk ?u loc = Some (expand_node p)" using walk_update_at [OF w] .
  have "\<exists>m1. (if n_collapsed p
               then (case setCollapsed' opts loc False None m of
                       (Inl e, m1) \<Rightarrow> (Inl e, m1)
                     | (Inr r, m1) \<Rightarrow> expandTo_loop opts (map nat loc) loc m1)
               else expandTo_loop opts (map nat loc) loc m)
              = expandTo_loop opts (map nat loc) loc m1 \<and>
             tree_of cc (root m1) = tree_of cc ?u"
  proof (cases "n_collapsed p")
    case True
    from expand_step [OF na w] obtain b m1 where
      "setCollapsed' opts loc False None m = (Inr b, m1)"
      "tree_of cc (root m1) = tree_of cc ?u" by blast
    then show ?thesis using True by auto
  next
    case False
    have "expand_node p = p" using False by (cases p) (simp add: expand_node_def)
    then have "tree_of cc ?u = tree_of cc (root m)"
      using tree_of_update_at [OF np, of cc expand_node] by simp
    then show ?thesis using False by auto
  qed
  moreover have "expandTo_loop opts (map nat (loc @ [i])) (loc @ [i]) m =
      (if n_collapsed p
               then (case setCollapsed' opts loc False None m of
                       (Inl e, m1) \<Rightarrow> (Inl e, m1)
                     | (Inr r, m1) \<Rightarrow> expandTo_loop opts (map nat loc) loc m1)
               else expandTo_loop opts (map nat loc) loc m)"
    using np expandTo_loop_snoc [of opts "map nat loc" "nat i" loc i m] by simp
  ultimately obtain m1 where
    step: "expandTo_loop opts (map nat (loc @ [i])) (loc @ [i]) m
             = expandTo_loop opts (map nat loc) loc m1"
    and t1: "tree_of cc (root m1) = tree_of cc ?u"
    by auto
  from walk_tree_of [OF t1 [symmetric] wu] obtain p1 where w1: "walk (root m1) loc = Some p1"
    by blast
  from snoc.IH [OF w1] obtain m' where
    l: "expandTo_loop opts (map nat loc) loc m1 = (Inr (), m')"
    and t': "tree_of cc (root m') = tree_of cc (expandAncestors (map nat loc) (root m1))"
    by blast
  have "tree_of cc (expandAncestors (map nat loc) (root m1))
          = tree_of cc (expandAncestors (map nat loc) ?u)"
    using tree_of_expandAncestors [OF t1] .
  also have "\<dots> = tree_of cc (expandAncestors (map nat (loc @ [i])) (root m))"
    using expandAncestors_snoc [OF np, of "nat i"] by simp
  finally show ?case using step l t' by simp
qed

lemma walk_expandAncestors:
  "walk r q = Some n \<Longrightarrow> walk r loc = Some t \<Longrightarrow>
   \<exists>n'. walk (expandAncestors (map nat loc) r) q = Some n' \<and>
         n_collapsible n' = n_collapsible n \<and>
         n_collapsed n' =
           (if (\<exists>s. s \<noteq> [] \<and> loc = q @ s) \<and> n_collapsible n then False else n_collapsed n)"
proof (induction q arbitrary: r loc t)
  case Nil
  then show ?case by (cases loc) auto
next
  case (Cons j q)
  from Cons.prems(1) have j: "0 \<le> j" "j < int (length (children r))"
    and w: "walk (children r ! nat j) q = Some n"
    by (auto split: if_splits)
  have nj: "nat j < length (children r)" using j by linarith
  show ?case
  proof (cases loc)
    case Nil
    then show ?thesis using Cons.prems(1) by simp
  next
    case (Cons i loc')
    from Cons.prems(2) Cons have i: "0 \<le> i" "i < int (length (children r))"
      and wl: "walk (children r ! nat i) loc' = Some t"
      by (auto split: if_splits)
    have ni: "nat i < length (children r)" using i by linarith
    show ?thesis
    proof (cases "i = j")
      case True
      from Cons.IH [OF w wl [unfolded True]] obtain n' where
        "walk (expandAncestors (map nat loc') (children r ! nat j)) q = Some n'"
        "n_collapsible n' = n_collapsible n"
        "n_collapsed n' =
           (if (\<exists>s. s \<noteq> [] \<and> loc' = q @ s) \<and> n_collapsible n then False else n_collapsed n)"
        by blast
      then show ?thesis using Cons True j nj by simp
    next
      case False
      then have "nat i \<noteq> nat j" using i j by linarith
      then show ?thesis using Cons False j nj ni w by simp
    qed
  qed
qed

text \<open>
  Claim C9, as the code has it. With \<open>autoExpandSingleChildren\<close> off and a location
  that addresses a node, \<open>expandTo\<close> returns, and the collapse state of every node of the
  tree is afterwards: expanded, for a collapsible node above the addressed node; as
  before, for every other node, the addressed node and the nodes of the sibling
  subtrees among them.
\<close>

theorem expandTo_expands_ancestors:
  fixes opts :: "('a, 'fd) options"
  assumes "\<not> autoExpandSingleChildren opts" and "walk (root m) loc = Some target"
  shows "\<exists>m'. expandTo opts loc m = (Inr (), m') \<and>
           (\<forall>q n. walk (root m) q = Some n \<longrightarrow>
              (\<exists>n'. walk (root m') q = Some n' \<and>
                 n_collapsed n' =
                   (if (\<exists>s. s \<noteq> [] \<and> loc = q @ s) \<and> n_collapsible n then False
                    else n_collapsed n)))"
proof -
  from expandTo_loop_valid [OF assms] obtain m' where
    l: "expandTo_loop opts (map nat loc) loc m = (Inr (), m')"
    and t: "tree_of cc (root m') = tree_of cc (expandAncestors (map nat loc) (root m))"
    by blast
  have e: "expandTo opts loc m = (Inr (), m')"
    using getTreeNode_valid [OF assms(2), of "root m" "[]"] l by (simp add: expandTo_def)
  have "\<exists>n'. walk (root m') q = Some n' \<and>
                 n_collapsed n' =
                   (if (\<exists>s. s \<noteq> [] \<and> loc = q @ s) \<and> n_collapsible n then False
                    else n_collapsed n)"
    if w: "walk (root m) q = Some n" for q n
  proof -
    from walk_expandAncestors [OF w assms(2)] obtain k where
      k: "walk (expandAncestors (map nat loc) (root m)) q = Some k"
      "n_collapsed k =
         (if (\<exists>s. s \<noteq> [] \<and> loc = q @ s) \<and> n_collapsible n then False else n_collapsed n)"
      by blast
    from walk_tree_of [OF t [symmetric] k(1)] obtain n' where
      "walk (root m') q = Some n'" "tree_of cc n' = tree_of cc k" by blast
    then show ?thesis using k(2) by (auto simp: tree_of_eq_iff)
  qed
  then show ?thesis using e by blast
qed

theorem expandTo_expands_ancestors_witness:
  "collapsed_at model_deep [0] = Some True \<and>
   collapsed_at model_deep [0, 0] = Some True \<and>
   collapsed_at model_deep [0, 1] = Some True \<and>
   collapsed_at model_deep [1] = Some True \<and>
   fst (expandTo no_filter [0, 0] model_deep) = Inr () \<and>
   collapsed_at (snd (expandTo no_filter [0, 0] model_deep)) [0] = Some False \<and>
   collapsed_at (snd (expandTo no_filter [0, 0] model_deep)) [0, 0] = Some True \<and>
   collapsed_at (snd (expandTo no_filter [0, 0] model_deep)) [0, 1] = Some True \<and>
   collapsed_at (snd (expandTo no_filter [0, 0] model_deep)) [1] = Some True"
proof -
  let ?n = "\<lambda>q. the (walk (root model_deep) q)"
  have na: "\<not> autoExpandSingleChildren no_filter" by (simp add: no_filter_def)
  have w: "walk (root model_deep) [0] = Some (?n [0])"
    "walk (root model_deep) [0, 0] = Some (?n [0, 0])"
    "walk (root model_deep) [0, 1] = Some (?n [0, 1])"
    "walk (root model_deep) [1] = Some (?n [1])"
    by code_simp+
  have c: "n_collapsed (?n [0])" "n_collapsible (?n [0])"
    "n_collapsed (?n [0, 0])" "n_collapsed (?n [0, 1])" "n_collapsed (?n [1])"
    by code_simp+
  have p: "\<exists>s. s \<noteq> [] \<and> [0, 0 :: int] = [0] @ s"
    "\<not> (\<exists>s. s \<noteq> [] \<and> [0, 0 :: int] = [0, 0] @ s)"
    "\<not> (\<exists>s. s \<noteq> [] \<and> [0, 0 :: int] = [0, 1] @ s)"
    "\<not> (\<exists>s. s \<noteq> [] \<and> [0, 0 :: int] = [1] @ s)"
    by auto
  from expandTo_expands_ancestors [OF na w(2)] obtain m' where
    e: "expandTo no_filter [0, 0] model_deep = (Inr (), m')"
    and a: "\<And>q n. walk (root model_deep) q = Some n \<Longrightarrow>
              \<exists>n'. walk (root m') q = Some n' \<and>
                 n_collapsed n' =
                   (if (\<exists>s. s \<noteq> [] \<and> [0, 0] = q @ s) \<and> n_collapsible n then False
                    else n_collapsed n)"
    by blast
  have "collapsed_at m' [0] = Some False"
    using a [OF w(1)] p(1) c by (auto simp: collapsed_at_def simp del: walk.simps)
  moreover have "collapsed_at m' [0, 0] = Some True"
    using a [OF w(2)] p(2) c by (auto simp: collapsed_at_def simp del: walk.simps)
  moreover have "collapsed_at m' [0, 1] = Some True"
    using a [OF w(3)] p(3) c by (auto simp: collapsed_at_def simp del: walk.simps)
  moreover have "collapsed_at m' [1] = Some True"
    using a [OF w(4)] p(4) c by (auto simp: collapsed_at_def simp del: walk.simps)
  moreover have "collapsed_at model_deep [0] = Some True"
    "collapsed_at model_deep [0, 0] = Some True"
    "collapsed_at model_deep [0, 1] = Some True"
    "collapsed_at model_deep [1] = Some True"
    by code_simp+
  ultimately show ?thesis using e by simp
qed

text \<open>
  Claim C9 as stated fails with \<open>autoExpandSingleChildren\<close> on: \<open>expandTo\<close> at the
  collapsed only child \<open>t\<close> of the collapsed node \<open>a\<close> expands \<open>a\<close>, and the call of
  line 239 then expands \<open>t\<close> itself, the addressed node.
\<close>

theorem expandTo_auto_expand_counterexample:
  "collapsed_at model_single [0, 0] = Some True \<and>
   fst (expandTo auto_expand [0, 0] model_single) = Inr () \<and>
   collapsed_at (snd (expandTo auto_expand [0, 0] model_single)) [0, 0] = Some False"
  by code_simp

section \<open>What \<open>setCollapsed\<close> returns\<close>












text \<open>
  The calls the statement above leaves out: with \<open>autoExpandSingleChildren\<close> on,
  expanding the expanded node \<open>a\<close>, whose only child \<open>a1\<close> is collapsed, expands \<open>a1\<close> by
  the nested call of line 239. The value of that call is not combined into \<open>result\<close>, as
  line 274 does for the recursive calls, and \<open>setCollapsed\<close> returns false although a
  collapse state changed.
\<close>

theorem auto_expand_result_dropped:
  "fst (setCollapsed auto_expand [0] (Some False) None model_nested) = Inr False \<and>
   collapse_tree (root (snd (setCollapsed auto_expand [0] (Some False) None model_nested)))
     \<noteq> collapse_tree (root model_nested)"
  by code_simp

section \<open>The location of a node\<close>

lemma ids_sel: "ids n = n_id n # concat (map ids (children n))"
  by (cases n) simp

lemma n_id_in_ids: "n_id n \<in> set (ids n)"
  by (cases n) simp

lemma find_node_None:
  fixes n :: "('a, 'fd) node" and cs :: "('a, 'fd) node list"
  shows "i \<notin> set (ids n) \<Longrightarrow> find_node i n = None"
    and "i \<notin> set (concat (map ids cs)) \<Longrightarrow> find_node_list i cs = None"
  by (induction i n and i cs rule: find_node_find_node_list.induct) auto

lemma find_node_list_nth:
  "distinct (concat (map ids cs)) \<Longrightarrow> j < length cs \<Longrightarrow> i \<in> set (ids (cs ! j)) \<Longrightarrow>
   find_node_list i cs = find_node i (cs ! j)"
proof (induction cs arbitrary: j)
  case Nil
  then show ?case by simp
next
  case (Cons c cs)
  show ?case
  proof (cases j)
    case 0
    then have "i \<in> set (ids c)" using Cons.prems by simp
    then have "i \<notin> set (concat (map ids cs))" using Cons.prems(1) by auto
    then have "find_node_list i cs = None" by (rule find_node_None(2))
    then show ?thesis using 0 by (simp split: option.splits)
  next
    case (Suc k)
    then have k: "k < length cs" "i \<in> set (ids (cs ! k))" using Cons.prems by simp_all
    then have "i \<in> set (concat (map ids cs))" by auto
    then have "i \<notin> set (ids c)" using Cons.prems(1) by auto
    then have "find_node i c = None" by (rule find_node_None(1))
    moreover have "find_node_list i cs = find_node i (cs ! k)"
      using Cons.IH [OF _ k] Cons.prems(1) by simp
    ultimately show ?thesis using Suc by simp
  qed
qed

lemma ids_node_at:
  "node_at r q = Some n \<Longrightarrow> set (ids n) \<subseteq> set (ids r)"
proof (induction q arbitrary: r)
  case Nil
  then show ?case by simp
next
  case (Cons j q)
  from Cons.prems have j: "j < length (children r)" and na: "node_at (children r ! j) q = Some n"
    by (auto split: if_splits)
  have "children r ! j \<in> set (children r)" using j by simp
  then have "set (ids (children r ! j)) \<subseteq> set (concat (map ids (children r)))" by auto
  then have "set (ids (children r ! j)) \<subseteq> set (ids r)"
    by (subst ids_sel [of r]) auto
  then show ?case using Cons.IH [OF na] by blast
qed

lemma distinct_ids_child:
  "distinct (ids r) \<Longrightarrow> j < length (children r) \<Longrightarrow> distinct (ids (children r ! j))"
  by (cases r) (auto simp: distinct_concat_iff)

lemma find_node_node_at:
  "distinct (ids r) \<Longrightarrow> node_at r q = Some n \<Longrightarrow> find_node (n_id n) r = Some n"
proof (induction q arbitrary: r)
  case Nil
  then have "n = r" by simp
  then show ?case by (cases r) simp
next
  case (Cons j q)
  obtain fs cs where r: "r = Node fs cs" by (cases r)
  from Cons.prems(2) r have j: "j < length cs" and na: "node_at (cs ! j) q = Some n"
    by (auto split: if_splits)
  have dc: "distinct (concat (map ids cs))" and nf: "nid fs \<notin> set (concat (map ids cs))"
    using Cons.prems(1) r by simp_all
  have inj: "n_id n \<in> set (ids (cs ! j))"
    using ids_node_at [OF na] n_id_in_ids by blast
  then have "n_id n \<in> set (concat (map ids cs))" using j by auto
  then have ne: "nid fs \<noteq> n_id n" using nf by auto
  have dj: "distinct (ids (cs ! j))"
    using distinct_ids_child [of r j] Cons.prems(1) r j by simp
  have "find_node_list (n_id n) cs = find_node (n_id n) (cs ! j)"
    using find_node_list_nth [OF dc j inj] .
  then show ?case using r ne Cons.IH [OF dj na] by simp
qed

lemma parents_ok_parent: "parents_ok p n \<Longrightarrow> parent (attrs n) = p"
  by (cases n) simp

lemma parents_ok_child:
  "parents_ok p n \<Longrightarrow> i < length (children n) \<Longrightarrow>
   parents_ok (Some (n_id n)) (children n ! i)"
  by (cases n) simp

lemma parents_ok_node_at:
  "parents_ok p r \<Longrightarrow> node_at r q = Some n \<Longrightarrow> i < length (children n) \<Longrightarrow>
   parent (attrs (children n ! i)) = Some (n_id n)"
proof (induction q arbitrary: r p)
  case Nil
  then have "n = r" by simp
  then show ?case using parents_ok_parent [OF parents_ok_child [OF Nil.prems(1)]] Nil.prems(3)
    by simp
next
  case (Cons j q)
  from Cons.prems(2) have j: "j < length (children r)"
    and na: "node_at (children r ! j) q = Some n"
    by (auto split: if_splits)
  have "parents_ok (Some (n_id r)) (children r ! j)"
    using parents_ok_child [OF Cons.prems(1) j] .
  from Cons.IH [OF this na Cons.prems(3)] show ?case .
qed

lemma indexOf_loop_nth:
  "distinct (map n_id cs) \<Longrightarrow> i < length cs \<Longrightarrow>
   indexOf_loop cs (n_id (cs ! i)) k = int (k + i)"
proof (induction cs arbitrary: i k)
  case Nil
  then show ?case by simp
next
  case (Cons c cs)
  show ?case
  proof (cases i)
    case 0
    then show ?thesis by simp
  next
    case (Suc j)
    then have j: "j < length cs" using Cons.prems by simp
    then have "n_id (cs ! j) \<in> set (map n_id cs)" by simp
    then have "n_id c \<noteq> n_id (cs ! j)" using Cons.prems(1) by auto
    then show ?thesis using Suc Cons.IH [OF _ j, of "Suc k"] Cons.prems(1) by simp
  qed
qed

lemma distinct_children_ids:
  assumes "distinct (ids n)"
  shows "distinct (map n_id (children n))"
proof -
  obtain fs cs where n: "n = Node fs cs" by (cases n)
  have d: "distinct (concat (map ids cs))" using assms n by simp
  have "distinct (map n_id cs)" using d
  proof (induction cs)
    case Nil
    then show ?case by simp
  next
    case (Cons c cs)
    have "n_id c \<notin> set (map n_id cs)"
    proof
      assume "n_id c \<in> set (map n_id cs)"
      then obtain c' where c': "c' \<in> set cs" "n_id c' = n_id c" by auto
      then have "n_id c \<in> set (concat (map ids cs))"
        using n_id_in_ids [of c'] by auto
      moreover have "n_id c \<in> set (ids c)" by (rule n_id_in_ids)
      ultimately show False using Cons.prems by auto
    qed
    then show ?case using Cons by simp
  qed
  then show ?thesis using n by simp
qed

lemma distinct_ids_node_at:
  "distinct (ids r) \<Longrightarrow> node_at r q = Some n \<Longrightarrow> distinct (ids n)"
proof (induction q arbitrary: r)
  case Nil
  then show ?case by simp
next
  case (Cons j q)
  from Cons.prems(2) have j: "j < length (children r)"
    and na: "node_at (children r ! j) q = Some n"
    by (auto split: if_splits)
  from Cons.IH [OF distinct_ids_child [OF Cons.prems(1) j] na] show ?case .
qed

lemma getNodeLocation_loop_node_at:
  assumes wf: "wf_refs r"
  shows "node_at r q = Some node \<Longrightarrow>
         getNodeLocation_loop r node acc = Some (acc @ rev (map int q))"
proof (induction q arbitrary: node acc rule: rev_induct)
  case Nil
  then have "node = r" by simp
  moreover have "parent (attrs r) = None" using wf by (cases r) (simp add: wf_refs_def)
  ultimately show ?case by (subst getNodeLocation_loop.simps) simp
next
  case (snoc i q)
  from snoc.prems obtain p where p: "node_at r q = Some p" and i: "i < length (children p)"
    and nd: "node = children p ! i"
    by (auto simp: node_at_append split: option.splits if_splits)
  have par: "parent (attrs node) = Some (n_id p)"
    using parents_ok_node_at [of None r, OF _ p i] wf nd by (simp add: wf_refs_def)
  have fnd: "find_node (n_id p) r = Some p"
    using find_node_node_at [OF _ p] wf by (simp add: wf_refs_def)
  have "distinct (ids p)" using distinct_ids_node_at [OF _ p] wf by (simp add: wf_refs_def)
  then have "indexOf (children p) node = int i"
    using indexOf_loop_nth [OF distinct_children_ids i, of 0] nd by (simp add: indexOf_def)
  then have "getNodeLocation_loop r node acc = getNodeLocation_loop r p (acc @ [int i])"
    using par fnd by (subst getNodeLocation_loop.simps) simp
  then show ?case using snoc.IH [OF p, of "acc @ [int i]"] by simp
qed

lemma walk_nonneg: "walk n loc = Some k \<Longrightarrow> map (int \<circ> nat) loc = loc"
  by (induction loc arbitrary: n) (auto split: if_splits)

text \<open>
  Claim C10: for every location that addresses a node, \<open>getNode\<close> returns that node
  and \<open>getNodeLocation\<close> of it returns the location; the empty location and the root
  included. The hypothesis \<open>wf_refs\<close> is the reading of the numbers as references.
\<close>

theorem getNodeLocation_getNode:
  "wf_refs (root m) \<Longrightarrow> walk (root m) loc = Some node \<Longrightarrow>
   getNode m loc = Inr node \<and> getNodeLocation m node = Some loc"
proof -
  assume wf: "wf_refs (root m)" and w: "walk (root m) loc = Some node"
  have g: "getNode m loc = Inr node"
    using getTreeNode_valid [OF w, of "root m" "[]"] by (simp add: getNode_def)
  have "getNodeLocation_loop (root m) node [] = Some (rev (map int (map nat loc)))"
    using getNodeLocation_loop_node_at [OF wf walk_node_at [OF w], of "[]"] by simp
  then have "getNodeLocation m node = Some (map (int \<circ> nat) loc)"
    by (simp add: getNodeLocation_def rev_map)
  then show ?thesis using g walk_nonneg [OF w] by simp
qed

theorem getNodeLocation_getNode_witness:
  "wf_refs (root model_a_b) \<and> walk (root model_a_b) [0, 1] \<noteq> None \<and>
   getNode model_a_b [0, 1] = Inr (the (walk (root model_a_b) [0, 1])) \<and>
   getNodeLocation model_a_b (the (walk (root model_a_b) [0, 1])) = Some [0, 1]"
proof -
  have wf: "wf_refs (root model_a_b)" by code_simp
  have w: "walk (root model_a_b) [0, 1] = Some (the (walk (root model_a_b) [0, 1]))"
    by code_simp
  have "walk (root model_a_b) [0, 1] \<noteq> None" by code_simp
  then show ?thesis using wf getNodeLocation_getNode [OF wf w] by (simp del: walk.simps)
qed

section \<open>Render node counts\<close>

lemma all_visible_sel:
  "all_visible n = (n_visible n \<and> (\<forall>c \<in> set (children n). all_visible c))"
  by (cases n) simp

lemma count_ok_sel:
  "count_ok n =
     (n_rnc n = (if n_collapsed n then 1 else 1 + sum_list (map n_rnc (children n))) \<and>
      (\<not> n_collapsed n \<longrightarrow> (\<forall>c \<in> set (children n). count_ok c)))"
  by (cases n) simp

lemma count_ok_vci:
  "count_ok (Node ((attrs n)\<lparr>visibleChildIndex := k\<rparr>) (children n)) = count_ok n"
  by (cases n) simp

lemma all_visible_vci:
  "all_visible (Node ((attrs n)\<lparr>visibleChildIndex := k\<rparr>) (children n)) = all_visible n"
  by (cases n) simp

lemma addRenderNodeCount_zero: "addRenderNodeCount 0 p n = n"
proof (induction p arbitrary: n)
  case Nil
  then show ?case by (cases n) simp
next
  case (Cons i p)
  then show ?case by (cases n) (simp add: list_update_same_conv)
qed

lemma updateAncestors_eq:
  "updateAncestorsRenderNodeCount (Some p) d r = addRenderNodeCount d p r"
  by (simp add: updateAncestorsRenderNodeCount_def addRenderNodeCount_zero)

lemma add_update_bump:
  "node_at n p = Some x \<Longrightarrow>
   addRenderNodeCount d p (update_at p g n) =
     bump d p (\<lambda>y. Node ((attrs (g y))\<lparr>renderNodeCount := n_rnc (g y) + d\<rparr>) (children (g y))) n"
proof (induction p arbitrary: n)
  case Nil
  then show ?case by simp
next
  case (Cons i p)
  from Cons.prems have i: "i < length (children n)"
    and na: "node_at (children n ! i) p = Some x"
    by (auto split: if_splits)
  show ?case using i Cons.IH [OF na] by simp
qed

lemma add_butlast_update_bump:
  "node_at n p = Some x \<Longrightarrow> p \<noteq> [] \<Longrightarrow>
   addRenderNodeCount d (butlast p) (update_at p g n) = bump d p g n"
proof (induction p arbitrary: n)
  case Nil
  then show ?case by simp
next
  case (Cons i p)
  from Cons.prems have i: "i < length (children n)"
    and na: "node_at (children n ! i) p = Some x"
    by (auto split: if_splits)
  show ?case
  proof (cases "p = []")
    case True
    then show ?thesis using i by simp
  next
    case False
    then show ?thesis using i Cons.IH [OF na False] by simp
  qed
qed

lemma rnc_bump:
  "node_at n p = Some x \<Longrightarrow> n_rnc (g x) = n_rnc x + d \<Longrightarrow> n_rnc (bump d p g n) = n_rnc n + d"
  by (cases p) (auto split: if_splits)

lemma collapsed_bump:
  "node_at n p = Some x \<Longrightarrow> n_collapsed (g x) = n_collapsed x \<Longrightarrow>
   n_collapsed (bump d p g n) = n_collapsed n"
  by (cases p) (auto split: if_splits)

lemma sum_list_update_nth:
  fixes f :: "'b \<Rightarrow> int"
  shows "i < length xs \<Longrightarrow> sum_list (map f (xs[i := y])) = sum_list (map f xs) - f (xs ! i) + f y"
proof (induction xs arbitrary: i)
  case Nil
  then show ?case by simp
next
  case (Cons x xs)
  show ?case
  proof (cases i)
    case 0
    then show ?thesis by simp
  next
    case (Suc j)
    then have "j < length xs" using Cons.prems by simp
    from Cons.IH [OF this] show ?thesis using Suc by simp
  qed
qed

lemma ball_list_update:
  "\<forall>c \<in> set xs. P c \<Longrightarrow> P y \<Longrightarrow> \<forall>c \<in> set (xs[i := y]). P c"
  using set_update_subset_insert [of xs i y] by auto

lemma ball_map_eq:
  "map f xs = map f ys \<Longrightarrow> (\<And>x y. x \<in> set xs \<Longrightarrow> f x = f y \<Longrightarrow> P x = P y) \<Longrightarrow>
   (\<forall>x \<in> set xs. P x) = (\<forall>y \<in> set ys. P y)"
proof (induction xs arbitrary: ys)
  case Nil
  then show ?case by simp
next
  case (Cons x xs)
  from Cons.prems(1) obtain y ys' where ys: "ys = y # ys'" by (cases ys) auto
  from Cons.prems(1) ys have e: "f x = f y" "map f xs = map f ys'" by simp_all
  have "P x = P y" using Cons.prems(2) [of x y] e by simp
  moreover have "(\<forall>x \<in> set xs. P x) = (\<forall>y \<in> set ys'. P y)"
  proof (rule Cons.IH [OF e(2)])
    fix a b
    assume "a \<in> set xs" "f a = f b"
    then show "P a = P b" using Cons.prems(2) [of a b] by simp
  qed
  ultimately show ?case using ys by simp
qed

lemma count_ok_bump:
  "count_ok n \<Longrightarrow> node_at n p = Some x \<Longrightarrow> above_expanded n p \<Longrightarrow>
   count_ok (g x) \<Longrightarrow> n_rnc (g x) = n_rnc x + d \<Longrightarrow> count_ok (bump d p g n)"
proof (induction p arbitrary: n)
  case Nil
  then show ?case by simp
next
  case (Cons i p)
  from Cons.prems(2) have i: "i < length (children n)"
    and na: "node_at (children n ! i) p = Some x"
    by (auto split: if_splits)
  from Cons.prems(3) have ex: "\<not> n_collapsed n" and ab: "above_expanded (children n ! i) p"
    by simp_all
  from Cons.prems(1) ex have rn: "n_rnc n = 1 + sum_list (map n_rnc (children n))"
    and ck: "\<forall>c \<in> set (children n). count_ok c"
    using count_ok_sel [of n] by simp_all
  let ?c = "bump d p g (children n ! i)"
  have c1: "count_ok ?c"
    using Cons.IH [OF _ na ab Cons.prems(4,5)] ck i by simp
  have c2: "n_rnc ?c = n_rnc (children n ! i) + d"
    using rnc_bump [of "children n ! i" p x g d, OF na Cons.prems(5)] .
  have "\<forall>c \<in> set ((children n)[i := ?c]). count_ok c"
    using ball_list_update [OF ck c1] .
  moreover have "sum_list (map n_rnc ((children n)[i := ?c])) = sum_list (map n_rnc (children n)) + d"
    using sum_list_update_nth [OF i, of n_rnc ?c] c2 by simp
  ultimately show ?case using i ex rn by simp
qed

lemma rnc_update_at:
  "node_at n p = Some x \<Longrightarrow> n_rnc (g x) = n_rnc x \<Longrightarrow> n_rnc (update_at p g n) = n_rnc n"
  by (cases p) (auto split: if_splits)

lemma collapsed_update_at:
  "node_at n p = Some x \<Longrightarrow> n_collapsed (g x) = n_collapsed x \<Longrightarrow>
   n_collapsed (update_at p g n) = n_collapsed n"
  by (cases p) (auto split: if_splits)

lemma count_ok_update_below_collapsed:
  "count_ok n \<Longrightarrow> node_at n p = Some x \<Longrightarrow> \<not> above_expanded n p \<Longrightarrow>
   count_ok (update_at p g n)"
proof (induction p arbitrary: n)
  case Nil
  then show ?case by simp
next
  case (Cons i p)
  from Cons.prems(2) have i: "i < length (children n)"
    and na: "node_at (children n ! i) p = Some x"
    by (auto split: if_splits)
  show ?case
  proof (cases "n_collapsed n")
    case True
    then show ?thesis using Cons.prems(1) i count_ok_sel [of n] by simp
  next
    case False
    then have nab: "\<not> above_expanded (children n ! i) p" using Cons.prems(3) by simp
    then have pne: "p \<noteq> []" by (cases p) auto
    from Cons.prems(1) False have rn: "n_rnc n = 1 + sum_list (map n_rnc (children n))"
      and ck: "\<forall>c \<in> set (children n). count_ok c"
      using count_ok_sel [of n] by simp_all
    let ?c = "update_at p g (children n ! i)"
    have c1: "count_ok ?c" using Cons.IH [OF _ na nab] ck i by simp
    have c2: "n_rnc ?c = n_rnc (children n ! i)"
      using pne na by (cases p) (auto split: if_splits)
    have "\<forall>c \<in> set ((children n)[i := ?c]). count_ok c"
      using ball_list_update [OF ck c1] .
    moreover have "sum_list (map n_rnc ((children n)[i := ?c])) = sum_list (map n_rnc (children n))"
      using sum_list_update_nth [OF i, of n_rnc ?c] c2 by simp
    ultimately show ?thesis using i False rn by simp
  qed
qed

lemma all_visible_update_at:
  "all_visible n \<Longrightarrow> node_at n p = Some x \<Longrightarrow> all_visible (g x) \<Longrightarrow>
   all_visible (update_at p g n)"
proof (induction p arbitrary: n)
  case Nil
  then show ?case by simp
next
  case (Cons i p)
  from Cons.prems(2) have i: "i < length (children n)"
    and na: "node_at (children n ! i) p = Some x"
    by (auto split: if_splits)
  have k: "\<forall>c \<in> set (children n). all_visible c" "n_visible n"
    using Cons.prems(1) all_visible_sel [of n] by simp_all
  have "all_visible (update_at p g (children n ! i))"
    using Cons.IH [OF _ na Cons.prems(3)] k i by simp
  then have "\<forall>c \<in> set ((children n)[i := update_at p g (children n ! i)]). all_visible c"
    using ball_list_update [OF k(1)] by blast
  then show ?case using i k by simp
qed

lemma all_visible_tree_of:
  fixes n n' :: "('a, 'fd) node"
  shows "tree_of visible n = tree_of visible n' \<Longrightarrow> all_visible n = all_visible n'"
proof (induction n arbitrary: n')
  case (Node fs cs)
  obtain fs' cs' where n': "n' = Node fs' cs'" by (cases n')
  from Node.prems n' have v: "visible fs = visible fs'"
    and m: "map (tree_of visible) cs = map (tree_of visible) cs'"
    by simp_all
  have "(\<forall>c \<in> set cs. all_visible c) = (\<forall>c \<in> set cs'. all_visible c)"
  proof (rule ball_map_eq [OF m])
    fix x y :: "('a, 'fd) node"
    assume "x \<in> set cs" "tree_of visible x = tree_of visible y"
    then show "all_visible x = all_visible y" using Node.IH [of x y] by simp
  qed
  then show ?case using n' v by simp
qed

lemma above_expanded_append:
  "node_at n p = Some x \<Longrightarrow> above_expanded n (p @ [i]) = (above_expanded n p \<and> \<not> n_collapsed x)"
  by (induction p arbitrary: n) (auto split: if_splits)

lemma all_visible_child:
  "all_visible n \<Longrightarrow> i < length (children n) \<Longrightarrow> all_visible (children n ! i)"
  using all_visible_sel [of n] by simp

lemma all_visible_node_at:
  "all_visible n \<Longrightarrow> node_at n p = Some x \<Longrightarrow> all_visible x"
proof (induction p arbitrary: n)
  case Nil
  then show ?case by simp
next
  case (Cons i p)
  from Cons.prems(2) have i: "i < length (children n)"
    and na: "node_at (children n ! i) p = Some x"
    by (auto split: if_splits)
  from Cons.IH [OF all_visible_child [OF Cons.prems(1) i] na] show ?case .
qed

lemma getParentNodeWithListIndex_valid_flags:
  "loc \<noteq> [] \<Longrightarrow> walk n (butlast loc) = Some pn \<Longrightarrow> 0 \<le> last loc \<Longrightarrow>
   last loc \<le> int (length (children pn)) \<Longrightarrow> all_visible n \<Longrightarrow>
   \<exists>li'. getParentNodeWithListIndex r loc n p li rv vis =
      Inr (pn, p @ map nat (butlast loc), li',
           rv \<and> above_expanded n (map nat (butlast loc)) \<and> \<not> n_collapsed pn, vis)"
proof (induction loc arbitrary: n p li rv vis)
  case Nil
  then show ?case by simp
next
  case (Cons i loc)
  have vn: "n_visible n" using Cons.prems(5) all_visible_sel [of n] by simp
  show ?case
  proof (cases "loc = []")
    case True
    then show ?thesis using Cons.prems vn by (auto simp: Let_def)
  next
    case False
    from Cons.prems False have i: "0 \<le> i" "i < int (length (children n))"
      and w: "walk (children n ! nat i) (butlast loc) = Some pn"
      by (auto split: if_splits)
    have ni: "nat i < length (children n)" using i by linarith
    from Cons.prems False have l: "0 \<le> last loc" "last loc \<le> int (length (children pn))"
      by auto
    have av: "all_visible (children n ! nat i)"
      using all_visible_child [OF Cons.prems(5) ni] .
    from Cons.IH [OF False w l av, of "p @ [nat i]"
        "li + sum_list (map n_rnc (take (nat i) (children n))) + 1"
        "rv \<and> \<not> n_collapsed n" "vis \<and> n_visible n"]
    show ?thesis
      using False i ni vn by (auto simp: Let_def)
  qed
qed

lemma getTreeNodeWithListIndex_valid_flags:
  assumes "walk r loc = Some node" and "all_visible r"
  shows "\<exists>li vis. getTreeNodeWithListIndex r loc =
           Inr (Some (node, map nat loc), li, above_expanded r (map nat loc), vis)"
proof (cases "loc = []")
  case True
  then show ?thesis using assms by (auto simp: getTreeNodeWithListIndex_def)
next
  case False
  then have loc: "loc = butlast loc @ [last loc]" by simp
  from assms obtain pn where
    w: "walk r (butlast loc) = Some pn" and i: "0 \<le> last loc" "last loc < int (length (children pn))"
    and nd: "node = children pn ! nat (last loc)"
    using walk_append [of r "butlast loc" "last loc"] loc
    by (auto split: option.splits if_splits)
  have ni: "nat (last loc) < length (children pn)" using i by linarith
  from getParentNodeWithListIndex_valid_flags [OF False w i(1) _ assms(2), of r "[]" 0 True True] i
  obtain li' where
    g: "getParentNodeWithListIndex r loc r [] 0 True True =
          Inr (pn, map nat (butlast loc), li',
               above_expanded r (map nat (butlast loc)) \<and> \<not> n_collapsed pn, True)"
    by auto
  have ml: "map nat loc = map nat (butlast loc) @ [nat (last loc)]"
    using loc by (metis list.simps(8,9) map_append)
  have "above_expanded r (map nat loc) =
          (above_expanded r (map nat (butlast loc)) \<and> \<not> n_collapsed pn)"
    using above_expanded_append [OF walk_node_at [OF w]] ml by simp
  then show ?thesis
    using False g i ni nd ml by (simp add: getTreeNodeWithListIndex_def Let_def)
qed

subsection \<open>Created nodes\<close>

lemma createTreeNode_counts:
  fixes opts :: "('a, 'fd) options"
  shows "shows_all opts \<Longrightarrow> createTreeNode opts el pid pdepth pv revealed tle nx = (node, tle', nx') \<Longrightarrow>
         all_visible node \<and> count_ok node"
    and "shows_all opts \<Longrightarrow> createNodes opts els pid pdepth pv revealed tle nx start = (nodes, tle', nx', cnt, rsum) \<Longrightarrow>
         (\<forall>n \<in> set nodes. all_visible n \<and> count_ok n) \<and>
         rsum = sum_list (map n_rnc nodes)"
proof (induction opts el pid pdepth pv revealed tle nx and opts els pid pdepth pv revealed tle nx start
       arbitrary: node tle' nx' and nodes tle' nx' cnt rsum
       rule: createTreeNode_createNodes.induct)
  case (1 opts e cs cb cd pid pdepth parentVisibility revealed tle nx)
  obtain fdata where f: "filterNode opts e (Some parentVisibility) = (Visible, fdata)"
    using "1.prems"(1) [unfolded shows_all_def]
    by (cases "filterNode opts e (Some parentVisibility)") (metis fst_conv)
  let ?c0 = "(case cd of None \<Rightarrow> collapseByDefault opts | Some c \<Rightarrow> c)"
  obtain childNodes tle2 nx2 cnt rsum where
    c: "createNodes opts cs nx (pdepth + 1) Visible (revealed \<and> \<not> ?c0)
          (if revealed then tle @ [nx] else tle) (Suc nx) 0 = (childNodes, tle2, nx2, cnt, rsum)"
    by (cases "createNodes opts cs nx (pdepth + 1) Visible (revealed \<and> \<not> ?c0)
          (if revealed then tle @ [nx] else tle) (Suc nx) 0") auto
  have ih: "(\<forall>n \<in> set childNodes. all_visible n \<and> count_ok n) \<and>
            rsum = sum_list (map n_rnc childNodes)"
    using "1.IH" [OF refl refl f [symmetric] refl refl "1.prems"(1), of childNodes tle2 nx2 cnt rsum] c
    by simp
  from "1.prems"(2) f c have node: "children node = childNodes"
    "n_visible node" "n_collapsed node = ?c0"
    "n_rnc node = (if ?c0 then 1 else 1 + rsum)"
    by (auto simp: Let_def split: if_splits)
  show ?case
    using ih node all_visible_sel [of node] count_ok_sel [of node] by simp
next
  case (2 opts pid pdepth parentVisibility revealed tle nx start)
  then show ?case by simp
next
  case (3 opts el els pid pdepth parentVisibility revealed tle nx start)
  obtain child tle1 nx1 where
    c: "createTreeNode opts el pid pdepth parentVisibility revealed tle nx = (child, tle1, nx1)"
    by (cases "createTreeNode opts el pid pdepth parentVisibility revealed tle nx")
  let ?start' = "if n_visible child then start + 1 else start"
  obtain rest tle2 nx2 cnt' rsum' where
    r: "createNodes opts els pid pdepth parentVisibility revealed tle1 nx1 ?start'
          = (rest, tle2, nx2, cnt', rsum')"
    by (cases "createNodes opts els pid pdepth parentVisibility revealed tle1 nx1 ?start'") auto
  have ih1: "all_visible child \<and> count_ok child"
    using "3.IH"(1) [OF "3.prems"(1) c] .
  have ih2: "(\<forall>n \<in> set rest. all_visible n \<and> count_ok n) \<and> rsum' = sum_list (map n_rnc rest)"
    using "3.IH"(2) [OF c [symmetric] refl refl refl "3.prems"(1) r] by simp
  from "3.prems"(2) c r show ?case
    using ih1 ih2 by (auto simp: Let_def count_ok_vci all_visible_vci
        simp del: count_ok.simps all_visible.simps split: if_splits)
qed

lemma js_splice_sum:
  fixes f :: "'b \<Rightarrow> int"
  assumes "0 \<le> s" "s \<le> int (length xs)" "js_splice s dc ins xs = (deleted, ys)"
  shows "sum_list (map f ys) = sum_list (map f xs) - sum_list (map f deleted) + sum_list (map f ins)"
    and "set ys \<subseteq> set xs \<union> set ins"
proof -
  define d where "d = nat (min (max dc 0) (int (length xs) - s))"
  have ys: "ys = take (nat s) xs @ ins @ drop (nat s + d) xs"
    and del: "deleted = take d (drop (nat s) xs)"
    using assms by (auto simp: js_splice_def Let_def d_def min_def)
  have "xs = take (nat s) xs @ take d (drop (nat s) xs) @ drop d (drop (nat s) xs)"
    by (simp only: append_take_drop_id)
  then have "sum_list (map f xs) =
      sum_list (map f (take (nat s) xs)) + sum_list (map f (take d (drop (nat s) xs)))
        + sum_list (map f (drop d (drop (nat s) xs)))"
    by (metis add.assoc map_append sum_list_append)
  moreover have "drop d (drop (nat s) xs) = drop (nat s + d) xs"
    by (simp add: add.commute)
  ultimately show "sum_list (map f ys) =
      sum_list (map f xs) - sum_list (map f deleted) + sum_list (map f ins)"
    using ys del by simp
  show "set ys \<subseteq> set xs \<union> set ins"
    using ys set_take_subset [of "nat s" xs] set_drop_subset [of "nat s + d" xs] by auto
qed

lemma reindexed_tail:
  fixes cs1 :: "('a, 'fd) node list"
  defines "h dv \<equiv> (\<lambda>child :: ('a, 'fd) node. if n_visible child
             then Node ((attrs child)\<lparr>visibleChildIndex := n_vci child - dv\<rparr>) (children child)
             else child)"
  shows "map n_rnc (take k cs1 @ map (h dv) (drop k cs1)) = map n_rnc cs1"
    and "(\<And>c j. Q (Node ((attrs c)\<lparr>visibleChildIndex := j\<rparr>) (children c)) = Q c) \<Longrightarrow>
         \<forall>c \<in> set cs1. Q c \<Longrightarrow> \<forall>c \<in> set (take k cs1 @ map (h dv) (drop k cs1)). Q c"
proof -
  have r: "n_rnc (h dv c) = n_rnc c" for c by (simp add: h_def)
  have "map n_rnc (map (h dv) (drop k cs1)) = map n_rnc (drop k cs1)"
    by (simp add: r)
  then have "map n_rnc (take k cs1 @ map (h dv) (drop k cs1)) =
        map n_rnc (take k cs1) @ map n_rnc (drop k cs1)"
    by simp
  also have "\<dots> = map n_rnc cs1"
    by (metis append_take_drop_id map_append)
  finally show "map n_rnc (take k cs1 @ map (h dv) (drop k cs1)) = map n_rnc cs1" .
next
  assume q: "\<And>c j. Q (Node ((attrs c)\<lparr>visibleChildIndex := j\<rparr>) (children c)) = Q c"
    and a: "\<forall>c \<in> set cs1. Q c"
  have hq: "Q (h dv c) = Q c" for c by (simp add: h_def q)
  have t: "\<forall>c \<in> set (take k cs1). Q c" using a set_take_subset [of k cs1] by auto
  have d: "\<forall>c \<in> set (drop k cs1). Q c" using a set_drop_subset [of k cs1] by auto
  show "\<forall>c \<in> set (take k cs1 @ map (h dv) (drop k cs1)). Q c"
    using t d hq by auto
qed

lemma count_ok_node_at:
  "count_ok n \<Longrightarrow> node_at n p = Some x \<Longrightarrow> above_expanded n p \<Longrightarrow> count_ok x"
proof (induction p arbitrary: n)
  case Nil
  then show ?case by simp
next
  case (Cons i p)
  from Cons.prems(2) have i: "i < length (children n)"
    and na: "node_at (children n ! i) p = Some x"
    by (auto split: if_splits)
  from Cons.prems(3) have ex: "\<not> n_collapsed n" and ab: "above_expanded (children n ! i) p"
    by simp_all
  have "count_ok (children n ! i)"
    using Cons.prems(1) ex i count_ok_sel [of n] by simp
  from Cons.IH [OF this na ab] show ?case .
qed

lemma bump_zero:
  "node_at n p = Some x \<Longrightarrow> bump 0 p g n = update_at p g n"
proof (induction p arbitrary: n)
  case Nil
  then show ?case by simp
next
  case (Cons i p)
  from Cons.prems have i: "i < length (children n)"
    and na: "node_at (children n ! i) p = Some x"
    by (auto split: if_splits)
  show ?case using i Cons.IH [OF na] by simp
qed

text \<open>Replacing the node at a place below the root, with a change \<open>d\<close> of its count that
  is added to its ancestors when they are all expanded.\<close>

lemma kids_bump:
  assumes k: "\<forall>c \<in> set (children r). count_ok c"
    and na: "node_at r (i # q) = Some x"
    and ab: "above_expanded (children r ! i) q"
    and g: "count_ok (g x)" "n_rnc (g x) = n_rnc x + d"
  shows "\<forall>c \<in> set (children (bump d (i # q) g r)). count_ok c"
proof -
  from na have i: "i < length (children r)"
    and na': "node_at (children r ! i) q = Some x"
    by (auto split: if_splits)
  have "count_ok (children r ! i)" using k i by simp
  from count_ok_bump [of "children r ! i" q x g d, OF this na' ab g]
  have "count_ok (bump d q g (children r ! i))" .
  from ball_list_update [of "children r" count_ok, OF k this]
  show ?thesis using i by simp
qed

lemma kids_update_hidden:
  assumes k: "\<forall>c \<in> set (children r). count_ok c"
    and na: "node_at r (i # q) = Some x"
    and ab: "\<not> above_expanded (children r ! i) q"
  shows "\<forall>c \<in> set (children (update_at (i # q) g r)). count_ok c"
proof -
  from na have i: "i < length (children r)"
    and na': "node_at (children r ! i) q = Some x"
    by (auto split: if_splits)
  have "count_ok (children r ! i)" using k i by simp
  from count_ok_update_below_collapsed [of "children r ! i" q x g, OF this na' ab]
  have "count_ok (update_at q g (children r ! i))" .
  from ball_list_update [of "children r" count_ok, OF k this]
  show ?thesis using i by simp
qed

text \<open>The same for a node \<open>x\<close> that is replaced by \<open>y\<close>: \<open>y\<close> has its count right when its
  ancestors are all expanded, and the ancestors get the difference.\<close>

lemma counts_inv_replace:
  assumes inv: "counts_inv r"
    and na: "node_at r p = Some x"
    and p: "p \<noteq> []"
    and av: "all_visible y"
    and ok: "above_expanded r p \<Longrightarrow> count_ok y"
    and r': "r' = (if above_expanded r p then bump (n_rnc y - n_rnc x) p (\<lambda>_. y) r
                   else update_at p (\<lambda>_. y) r)"
  shows "counts_inv r'"
proof -
  obtain i q where pq: "p = i # q" using p by (cases p) auto
  from na pq have i: "i < length (children r)"
    and na': "node_at (children r ! i) q = Some x"
    by (auto split: if_splits)
  from inv have k: "\<forall>c \<in> set (children r). count_ok c"
    and nc: "\<not> n_collapsed r" "\<not> n_collapsible r" and avr: "all_visible r"
    by (simp_all add: counts_inv_def)
  have avu: "all_visible (update_at p (\<lambda>_. y) r)"
    using all_visible_update_at [OF avr na, of "\<lambda>_. y"] av by simp
  show ?thesis
  proof (cases "above_expanded r p")
    case True
    then have ab: "above_expanded (children r ! i) q" using pq by simp
    have e: "r' = addRenderNodeCount (n_rnc y - n_rnc x) (butlast p) (update_at p (\<lambda>_. y) r)"
      using r' True add_butlast_update_bump [OF na p, of "n_rnc y - n_rnc x" "\<lambda>_. y"] by simp
    have "tree_of visible r' = tree_of visible (update_at p (\<lambda>_. y) r)"
      unfolding e by (rule tree_of_addRenderNodeCount) simp
    then have a1: "all_visible r'" using avu all_visible_tree_of by blast
    have b: "r' = bump (n_rnc y - n_rnc x) (i # q) (\<lambda>_. y) r" using r' True pq by simp
    have a2: "\<forall>c \<in> set (children r'). count_ok c"
      unfolding b
      by (rule kids_bump [OF k na [unfolded pq] ab]) (use ok True in simp_all)
    have a3: "\<not> n_collapsed r'" "\<not> n_collapsible r'" using b nc by simp_all
    show ?thesis using a1 a2 a3 by (simp add: counts_inv_def)
  next
    case False
    then have ab: "\<not> above_expanded (children r ! i) q" using pq nc by simp
    have b: "r' = update_at (i # q) (\<lambda>_. y) r"
      using r' False unfolding pq by (simp only: if_False)
    have a2: "\<forall>c \<in> set (children r'). count_ok c"
      unfolding b by (rule kids_update_hidden [OF k na [unfolded pq] ab])
    have a3: "\<not> n_collapsed r'" "\<not> n_collapsible r'" using b nc i by simp_all
    show ?thesis using avu a2 a3 b pq by (simp add: counts_inv_def)
  qed
qed

lemma splice_counts_inv:
  fixes opts :: "('a, 'fd) options" and m :: "('a, 'fd) model"
  assumes sa: "shows_all opts"
    and inv: "counts_inv (root m)"
    and ne: "loc \<noteq> []"
    and w: "walk (root m) (butlast loc) = Some P"
    and lo: "0 \<le> last loc"
    and hi: "last loc \<le> int (length (children P))"
  shows "counts_inv (root (snd (splice opts loc dc ins m)))"
proof -
  let ?r = "root m"
  let ?pp = "map nat (butlast loc)"
  from inv have avr: "all_visible ?r" and ncr: "\<not> n_collapsed ?r" "\<not> n_collapsible ?r"
    and kr: "\<forall>c \<in> set (children ?r). count_ok c"
    by (simp_all add: counts_inv_def)
  define rv where "rv = (above_expanded ?r ?pp \<and> \<not> n_collapsed P)"
  from getParentNodeWithListIndex_valid_flags [OF ne w lo hi avr, of ?r "[]" 0 True True]
  obtain li where
    g: "getParentNodeWithListIndex ?r loc ?r [] 0 True True = Inr (P, ?pp, li, rv, True)"
    by (auto simp: rv_def)
  have na: "node_at ?r ?pp = Some P" using walk_node_at [OF w] .
  have avP: "all_visible P" using all_visible_node_at [OF avr na] .
  then have vP: "n_visible P" and avc: "\<forall>c \<in> set (children P). all_visible c"
    using all_visible_sel [of P] by simp_all
  define start where "start = visibleChildStartIndex (children P) (last loc)"
  obtain nodes tle nx cnt rsum where
    c: "createNodes opts ins (n_id P) (depth (attrs P)) Visible rv [] (next_id m) start
          = (nodes, tle, nx, cnt, rsum)"
    by (cases "createNodes opts ins (n_id P) (depth (attrs P)) Visible rv [] (next_id m) start")
       auto
  from createTreeNode_counts(2) [OF sa c]
  have nodes: "\<forall>n \<in> set nodes. all_visible n \<and> count_ok n"
    and rsum: "rsum = sum_list (map n_rnc nodes)"
    by simp_all
  obtain deleted children1 where
    j: "js_splice (last loc) dc nodes (children P) = (deleted, children1)"
    by (cases "js_splice (last loc) dc nodes (children P)")
  define dv where "dv = int (length (filter n_visible deleted))"
  define k where "k = nat (last loc) + length nodes"
  define children2 where "children2 =
     (if dv \<noteq> 0
      then take k children1 @
           map (\<lambda>child. if n_visible child
                  then Node ((attrs child)\<lparr>visibleChildIndex := n_vci child - dv\<rparr>)
                         (children child)
                  else child) (drop k children1)
      else children1)"
  define P' where "P' = Node ((attrs P)\<lparr>visibleChildrenCount := n_vcc P + cnt - dv\<rparr>) children2"
  define diff where "diff = rsum - sum_list (map n_rnc deleted)"
  have res: "root (snd (splice opts loc dc ins m)) =
      (if rv then updateAncestorsRenderNodeCount (Some ?pp) diff (update_at ?pp (\<lambda>_. P') ?r)
       else update_at ?pp (\<lambda>_. P') ?r)"
    using ne g c j vP
    unfolding P'_def children2_def diff_def k_def dv_def start_def
    by (simp add: splice_def Let_def)
  have sum1: "sum_list (map n_rnc children1) =
        sum_list (map n_rnc (children P)) - sum_list (map n_rnc deleted) + rsum"
    using js_splice_sum(1) [OF lo hi j, of n_rnc] rsum by simp
  have sub1: "set children1 \<subseteq> set (children P) \<union> set nodes"
    using js_splice_sum(2) [OF lo hi j] .
  have map2: "map n_rnc children2 = map n_rnc children1"
    unfolding children2_def using reindexed_tail(1) [where k = k and dv = dv and ?cs1.0 = children1] by simp
  have sum2: "sum_list (map n_rnc children2) = sum_list (map n_rnc (children P)) + diff"
    using sum1 map2 by (simp add: diff_def)
  have av1: "\<forall>c \<in> set children1. all_visible c" using sub1 avc nodes by auto
  have av2: "\<forall>c \<in> set children2. all_visible c"
    unfolding children2_def
    using reindexed_tail(2) [where Q = all_visible and k = k and dv = dv and ?cs1.0 = children1,
        OF all_visible_vci av1] av1
    by simp
  have ok2: "\<forall>c \<in> set children2. count_ok c" if "\<forall>c \<in> set (children P). count_ok c"
  proof -
    have ok1: "\<forall>c \<in> set children1. count_ok c" using sub1 that nodes by auto
    show ?thesis
      unfolding children2_def
      using reindexed_tail(2) [where Q = count_ok and k = k and dv = dv and ?cs1.0 = children1,
          OF count_ok_vci ok1] ok1
      by simp
  qed
  define P'' where "P'' = Node ((attrs P')\<lparr>renderNodeCount := n_rnc P' + diff\<rparr>) (children P')"
  have avP': "all_visible P'" using av2 vP by (simp add: P'_def)
  have avP'': "all_visible P''" using av2 vP by (simp add: P'_def P''_def)
  show ?thesis
  proof (cases "?pp = []")
    case True
    then have P: "P = ?r" using na by simp
    have rvT: "rv" using True ncr P by (simp add: rv_def)
    have "root (snd (splice opts loc dc ins m)) = P''"
      using res rvT True by (simp add: updateAncestors_eq P''_def)
    moreover have "counts_inv P''"
      using avP'' ncr ok2 kr P by (simp add: counts_inv_def P''_def P'_def)
    ultimately show ?thesis by simp
  next
    case False
    define y where "y = (if rv then P'' else P')"
    have avy: "all_visible y" using avP' avP'' by (simp add: y_def)
    have oky: "count_ok y" if ab: "above_expanded ?r ?pp"
    proof -
      obtain i q where pq: "?pp = i # q" using False by (cases ?pp) auto
      from na pq have i: "i < length (children ?r)"
        and na': "node_at (children ?r ! i) q = Some P"
        by (auto split: if_splits)
      have "count_ok (children ?r ! i)" using kr i by simp
      from count_ok_node_at [OF this na'] ab pq have okP: "count_ok P" by simp
      show ?thesis
      proof (cases rv)
        case True
        then have nc: "\<not> n_collapsed P" by (simp add: rv_def)
        have kp: "\<forall>c \<in> set (children P). count_ok c"
          and rp: "n_rnc P = 1 + sum_list (map n_rnc (children P))"
          using okP nc count_ok_sel [of P] by simp_all
        show ?thesis
          using True nc rp ok2 [OF kp] sum2 by (simp add: y_def P''_def P'_def)
      next
        case False
        then have cp: "n_collapsed P" using ab by (simp add: rv_def)
        have "n_rnc P = 1" using okP cp count_ok_sel [of P] by simp
        then show ?thesis using False cp by (simp add: y_def P'_def)
      qed
    qed
    have r': "root (snd (splice opts loc dc ins m)) =
        (if above_expanded ?r ?pp then bump (n_rnc y - n_rnc P) ?pp (\<lambda>_. y) ?r
         else update_at ?pp (\<lambda>_. y) ?r)"
    proof (cases rv)
      case True
      then have ab: "above_expanded ?r ?pp" by (simp add: rv_def)
      have "n_rnc y - n_rnc P = diff" using True by (simp add: y_def P''_def P'_def)
      then show ?thesis
        using res True ab add_update_bump [OF na, of diff "\<lambda>_. P'"]
        by (simp add: updateAncestors_eq y_def P''_def)
    next
      case False
      have "n_rnc y - n_rnc P = 0" using False by (simp add: y_def P'_def)
      then show ?thesis
        using res False bump_zero [OF na, of "\<lambda>_. P'"] by (simp add: y_def)
    qed
    show ?thesis
      using counts_inv_replace [OF inv na False avy oky r'] by simp
  qed
qed

lemma collapse_change_counts:
  fixes n :: "('a, 'fd) node" and cs :: "('a, 'fd) node list"
  shows "all_visible n \<Longrightarrow> updateNodeAfterCollapseChange' n res = (n', res', k) \<Longrightarrow>
         count_ok n' \<and> k = n_rnc n' \<and> int (length res') = int (length res) + n_rnc n'"
    and "\<forall>c \<in> set cs. all_visible c \<Longrightarrow>
         updateChildrenAfterCollapseChange cs res = (cs', res', s) \<Longrightarrow>
         (\<forall>c \<in> set cs'. count_ok c) \<and> s = sum_list (map n_rnc cs') \<and>
         int (length res') = int (length res) + s"
proof (induction n res and cs res arbitrary: n' res' k and cs' res' s
       rule: updateNodeAfterCollapseChange'_updateChildrenAfterCollapseChange.induct)
  case (1 fs cs result)
  from "1.prems"(1) have v: "visible fs" and avc: "\<forall>c \<in> set cs. all_visible c" by simp_all
  show ?case
  proof (cases "collapsed fs")
    case True
    then show ?thesis using "1.prems"(2) v by (auto simp: Let_def)
  next
    case False
    obtain cs' result2 rsum where
      u: "updateChildrenAfterCollapseChange cs (result @ [nid fs]) = (cs', result2, rsum)"
      by (cases "updateChildrenAfterCollapseChange cs (result @ [nid fs])") auto
    have ih: "(\<forall>c \<in> set cs'. count_ok c) \<and> rsum = sum_list (map n_rnc cs') \<and>
              int (length result2) = int (length (result @ [nid fs])) + rsum"
      using "1.IH" [OF _ refl _ avc u] v False by simp
    show ?thesis using "1.prems"(2) v False u ih by (auto simp: Let_def)
  qed
next
  case (2 result)
  then show ?case by simp
next
  case (3 child cs result)
  obtain child' result1 k where
    a: "updateNodeAfterCollapseChange' child result = (child', result1, k)"
    by (cases "updateNodeAfterCollapseChange' child result") auto
  obtain cs1 result2 rsum where
    b: "updateChildrenAfterCollapseChange cs result1 = (cs1, result2, rsum)"
    by (cases "updateChildrenAfterCollapseChange cs result1") auto
  have ih1: "count_ok child' \<and> k = n_rnc child' \<and>
             int (length result1) = int (length result) + n_rnc child'"
    using "3.IH"(1) [OF _ a] "3.prems"(1) by simp
  have ih2: "(\<forall>c \<in> set cs1. count_ok c) \<and> rsum = sum_list (map n_rnc cs1) \<and>
             int (length result2) = int (length result1) + rsum"
    using "3.IH"(2) [OF refl a [symmetric] refl _ b] "3.prems"(1) by simp
  show ?case using "3.prems"(2) a b ih1 ih2 by (auto simp: Let_def)
qed

lemma node_at_bump:
  "node_at n p = Some x \<Longrightarrow> node_at (bump d p g n) p = Some (g x)"
proof (induction p arbitrary: n)
  case Nil
  then show ?case by simp
next
  case (Cons i p)
  from Cons.prems have i: "i < length (children n)"
    and na: "node_at (children n ! i) p = Some x"
    by (auto split: if_splits)
  show ?case using i Cons.IH [OF na] by simp
qed

lemma setListNodeCollapsed_counts_inv:
  fixes m :: "('a, 'fd) model"
  assumes inv: "counts_inv (root m)"
    and na: "node_at (root m) path = Some node"
    and sl: "setListNodeCollapsed node path li (above_expanded (root m) path) c rc m
               = (res, node', m1)"
  shows "counts_inv (root m1)" and "node_at (root m1) path = Some node'"
proof -
  let ?r = "root m"
  let ?rv = "above_expanded ?r path"
  from inv have avr: "all_visible ?r" and ncr: "\<not> n_collapsed ?r" "\<not> n_collapsible ?r"
    and kr: "\<forall>c \<in> set (children ?r). count_ok c"
    by (simp_all add: counts_inv_def)
  obtain node1 result where s: "setNodeCollapsed node c rc = (node1, result)"
    by (cases "setNodeCollapsed node c rc")
  have n1: "node1 = fst (setNodeCollapsed node c rc)" using s by simp
  have tv: "tree_of visible node1 = tree_of visible node"
    unfolding n1 by (rule tree_of_setNodeCollapsed(1)) simp
  have tr: "tree_of renderNodeCount node1 = tree_of renderNodeCount node"
    unfolding n1 by (rule tree_of_setNodeCollapsed(1)) simp
  have rn1: "n_rnc node1 = n_rnc node" using tr by (simp add: tree_of_eq_iff)
  have avn: "all_visible node" using all_visible_node_at [OF avr na] .
  have av1: "all_visible node1" using avn all_visible_tree_of [OF tv] by simp
  then have v1: "n_visible node1" using all_visible_sel [of node1] by simp
  obtain node2 toInsert k where
    u: "updateNodeAfterCollapseChange' node1 [] = (node2, toInsert, k)"
    by (cases "updateNodeAfterCollapseChange' node1 []") auto
  have n2: "node2 = fst (updateNodeAfterCollapseChange' node1 [])" using u by simp
  from collapse_change_counts(1) [OF av1 u]
  have ok2: "count_ok node2" and len: "int (length toInsert) = n_rnc node2" by simp_all
  have tv2: "tree_of visible node2 = tree_of visible node1"
    unfolding n2 by (rule tree_of_updateNodeAfterCollapseChange'(1)) simp
  have av2: "all_visible node2" using av1 all_visible_tree_of [OF tv2] by simp
  have root1: "root m1 =
      (if ?rv
       then updateAncestorsRenderNodeCount (if path = [] then None else Some (butlast path))
              (n_rnc node2 - n_rnc node) (update_at path (\<lambda>_. node2) ?r)
       else update_at path (\<lambda>_. node1) ?r)"
    and node': "node' = (if ?rv then node2 else node1)"
    using sl s u v1 len rn1
    by (auto simp: setListNodeCollapsed_def updateNodeAfterCollapseChange_def Let_def
        update_at_idem)
  have "counts_inv (root m1) \<and> node_at (root m1) path = Some node'"
  proof (cases "path = []")
    case True
    then have nd: "node = ?r" using na by simp
    have a1: "attrs node1 = attrs ?r"
      using setNodeCollapsed_attrs [of node c rc] ncr nd n1 by simp
    have c2: "n_collapsed node2 = n_collapsed node1"
      unfolding n2 by (rule updateNodeAfterCollapseChange'_attrs) simp
    have b2: "n_collapsible node2 = n_collapsible node1"
      unfolding n2 by (rule updateNodeAfterCollapseChange'_attrs) simp
    have r1: "root m1 = node2" using root1 True by (simp add: updateAncestorsRenderNodeCount_def)
    have "\<forall>c \<in> set (children node2). count_ok c"
      using ok2 c2 a1 ncr count_ok_sel [of node2] by simp
    then have "counts_inv (root m1)"
      using r1 av2 c2 b2 a1 ncr by (simp add: counts_inv_def)
    moreover have "node_at (root m1) path = Some node'" using r1 node' True by simp
    ultimately show ?thesis by simp
  next
    case False
    define y where "y = (if ?rv then node2 else node1)"
    have avy: "all_visible y" using av1 av2 by (simp add: y_def)
    have oky: "count_ok y" if "?rv" using that ok2 by (simp add: y_def)
    have r': "root m1 =
        (if ?rv then bump (n_rnc y - n_rnc node) path (\<lambda>_. y) ?r
         else update_at path (\<lambda>_. y) ?r)"
      using root1 False add_butlast_update_bump [OF na False, of "n_rnc node2 - n_rnc node" "\<lambda>_. node2"]
      by (simp add: y_def updateAncestors_eq)
    have "counts_inv (root m1)"
      using counts_inv_replace [OF inv na False avy oky r'] by simp
    moreover have "node_at (root m1) path = Some node'"
    proof (cases "?rv")
      case True
      then show ?thesis
        using r' node' node_at_bump [OF na, of "n_rnc y - n_rnc node" "\<lambda>_. y"]
        by (simp add: y_def)
    next
      case False
      then show ?thesis
        using r' node' node_at_update_at [OF na, of "\<lambda>_. y"]
        by (simp add: y_def)
    qed
    ultimately show ?thesis by simp
  qed
  then show "counts_inv (root m1)" "node_at (root m1) path = Some node'" by simp_all
qed

lemma node_at_walk:
  "map (int \<circ> nat) loc = loc \<Longrightarrow> node_at r (map nat loc) = Some n \<Longrightarrow> walk r loc = Some n"
proof (induction loc arbitrary: r)
  case Nil
  then show ?case by simp
next
  case (Cons i loc)
  from Cons.prems(1) have "int (nat i) = i" and l: "map (int \<circ> nat) loc = loc"
    by (simp_all add: comp_def del: int_nat_eq)
  then have i: "0 \<le> i" by linarith
  from Cons.prems(2) have ni: "nat i < length (children r)"
    and na: "node_at (children r ! nat i) (map nat loc) = Some n"
    by (auto split: if_splits)
  have "i < int (length (children r))" using ni i by linarith
  then show ?case using i Cons.IH [OF l na] by simp
qed

lemma setCollapsed_step_counts_inv:
  fixes opts :: "('a, 'fd) options"
  assumes inv: "counts_inv (root m)"
    and w: "walk (root m) loc = Some node"
  shows "\<exists>result io m1. setCollapsed_step opts loc c rc m = (Inr (result, io), m1) \<and>
           counts_inv (root m1) \<and> shape (root m1) = shape (root m) \<and>
           (\<forall>i. io = Some i \<longrightarrow> (\<exists>n'. walk (root m1) (loc @ [i]) = Some n'))"
proof -
  from inv have avr: "all_visible (root m)" by (simp add: counts_inv_def)
  from getTreeNodeWithListIndex_valid_flags [OF w avr] obtain li vis where
    g: "getTreeNodeWithListIndex (root m) loc =
          Inr (Some (node, map nat loc), li, above_expanded (root m) (map nat loc), vis)"
    by auto
  have na: "node_at (root m) (map nat loc) = Some node" using walk_node_at [OF w] .
  obtain result node' m1 where
    sl: "setListNodeCollapsed node (map nat loc) li (above_expanded (root m) (map nat loc))
           c (rc = Some True) m = (result, node', m1)"
    by (cases "setListNodeCollapsed node (map nat loc) li
                 (above_expanded (root m) (map nat loc)) c (rc = Some True) m") auto
  note i1 = setListNodeCollapsed_counts_inv [OF inv na sl]
  have "shape (root m1) =
          shape (update_at (map nat loc) (\<lambda>_. fst (setNodeCollapsed node c (rc = Some True))) (root m))"
    by (rule setListNodeCollapsed_tree_of(2) [OF na sl]) simp
  moreover have "shape (fst (setNodeCollapsed node c (rc = Some True))) = shape node"
    by (rule tree_of_setNodeCollapsed(1)) simp
  ultimately have sh: "shape (root m1) = shape (root m)"
    using tree_of_update_at [OF na, of "\<lambda>_. ()" "\<lambda>_. fst (setNodeCollapsed node c (rc = Some True))"]
    by simp
  have w1: "walk (root m1) loc = Some node'"
    using node_at_walk [OF walk_nonneg [OF w] i1(2)] .
  define io where "io =
     (if autoExpandSingleChildren opts \<and> \<not> c \<and> rc \<noteq> Some True
      then (if onlyVisibleChildIndex (children node') > - 1
            then Some (onlyVisibleChildIndex (children node')) else None)
      else None)"
  have st: "setCollapsed_step opts loc c rc m = (Inr (result, io), m1)"
    using g sl by (simp add: setCollapsed_step_def Let_def io_def)
  have "\<exists>n'. walk (root m1) (loc @ [i]) = Some n'" if "io = Some i" for i
  proof -
    from that have "i = onlyVisibleChildIndex (children node')" "i > - 1"
      by (auto simp: io_def split: if_splits)
    then have "0 \<le> i" "i < int (length (children node'))"
      using onlyVisibleChildIndex_bound [of "children node'"] by simp_all
    then show ?thesis using w1 by (simp add: walk_append)
  qed
  then show ?thesis using st i1(1) sh by blast
qed

lemma setCollapsed'_counts_inv:
  fixes opts :: "('a, 'fd) options"
  shows "counts_inv (root m) \<Longrightarrow> walk (root m) loc = Some node \<Longrightarrow>
         \<exists>b m'. setCollapsed' opts loc c rc m = (Inr b, m') \<and>
                counts_inv (root m') \<and> shape (root m') = shape (root m)"
proof (induction opts loc c rc m arbitrary: node rule: setCollapsed'.induct)
  case (1 opts location collapsed' recursive m)
  from setCollapsed_step_counts_inv [OF "1.prems", of opts collapsed' recursive]
  obtain result io m1 where
    st: "setCollapsed_step opts location collapsed' recursive m = (Inr (result, io), m1)"
    and inv1: "counts_inv (root m1)" and sh1: "shape (root m1) = shape (root m)"
    and nx: "\<forall>i. io = Some i \<longrightarrow> (\<exists>n'. walk (root m1) (location @ [i]) = Some n')"
    by blast
  show ?case
  proof (cases io)
    case None
    have "setCollapsed' opts location collapsed' recursive m = (Inr result, m1)"
      by (subst setCollapsed'.simps) (simp add: st None)
    then show ?thesis using inv1 sh1 by simp
  next
    case (Some i)
    from nx Some obtain n' where w1: "walk (root m1) (location @ [i]) = Some n'" by blast
    from "1.IH" [OF st [symmetric] refl refl Some inv1 w1]
    obtain b m' where
      r: "setCollapsed' opts (location @ [i]) False (Some False) m1 = (Inr b, m')"
      and inv': "counts_inv (root m')" and sh': "shape (root m') = shape (root m1)"
      by blast
    have "setCollapsed' opts location collapsed' recursive m = (Inr result, m')"
      by (subst setCollapsed'.simps) (simp add: st Some r)
    then show ?thesis using inv' sh' sh1 by simp
  qed
qed

lemma setCollapsed_counts_inv:
  fixes opts :: "('a, 'fd) options"
  assumes "counts_inv (root m)" and "walk (root m) loc = Some node"
  shows "counts_inv (root (snd (setCollapsed opts loc c rc m)))"
proof -
  have g: "getTreeNode (root m) loc (root m) [] = Inr (node, map nat loc)"
    using getTreeNode_valid [OF assms(2), of "root m" "[]"] by simp
  from setCollapsed'_counts_inv [OF assms,
      of opts "case c of None \<Rightarrow> \<not> n_collapsed node | Some c \<Rightarrow> c" rc]
  show ?thesis using g by (auto simp: setCollapsed_def)
qed

lemma expandTo_loop_counts_inv:
  fixes opts :: "('a, 'fd) options"
  shows "counts_inv (root m) \<Longrightarrow> walk (root m) loc = Some node \<Longrightarrow>
         counts_inv (root (snd (expandTo_loop opts (map nat loc) loc m)))"
proof (induction loc arbitrary: m node rule: rev_induct)
  case Nil
  then show ?case by (subst expandTo_loop.simps) simp
next
  case (snoc i loc)
  from snoc.prems(2) obtain p where wp: "walk (root m) loc = Some p"
    by (auto simp: walk_append split: option.splits)
  have na: "node_at (root m) (map nat loc) = Some p" using walk_node_at [OF wp] .
  show ?case
  proof (cases "n_collapsed p")
    case False
    have "expandTo_loop opts (map nat (loc @ [i])) (loc @ [i]) m =
            expandTo_loop opts (map nat loc) loc m"
      apply (subst expandTo_loop.simps)
      unfolding map_append butlast_snoc list.map
      using na False by simp
    then show ?thesis using snoc.IH [OF snoc.prems(1) wp] by simp
  next
    case True
    from setCollapsed'_counts_inv [OF snoc.prems(1) wp, of opts False None]
    obtain b m1 where
      s: "setCollapsed' opts loc False None m = (Inr b, m1)"
      and inv1: "counts_inv (root m1)" and sh1: "shape (root m1) = shape (root m)"
      by blast
    from walk_tree_of [OF sh1 [symmetric] wp] obtain p1 where
      wp1: "walk (root m1) loc = Some p1" by blast
    have "expandTo_loop opts (map nat (loc @ [i])) (loc @ [i]) m =
            expandTo_loop opts (map nat loc) loc m1"
      apply (subst expandTo_loop.simps)
      unfolding map_append butlast_snoc list.map
      using na True s by simp
    then show ?thesis using snoc.IH [OF inv1 wp1] by simp
  qed
qed

lemma expandTo_counts_inv:
  fixes opts :: "('a, 'fd) options"
  assumes "counts_inv (root m)" and "walk (root m) loc = Some node"
  shows "counts_inv (root (snd (expandTo opts loc m)))"
proof -
  have g: "getTreeNode (root m) loc (root m) [] = Inr (node, map nat loc)"
    using getTreeNode_valid [OF assms(2), of "root m" "[]"] by simp
  show ?thesis
    using g expandTo_loop_counts_inv [OF assms] by (simp add: expandTo_def)
qed

lemma updateChildrenAfterFilterChange_counts:
  fixes opts :: "('a, 'fd) options"
  assumes "\<And>c pv result revealed n' result' b. c \<in> set cs \<Longrightarrow>
             updateNodeAfterFilterChange' opts False c pv result revealed = (n', result', b) \<Longrightarrow>
             all_visible n' \<and>
             (revealed \<longrightarrow> count_ok n' \<and> int (length result') = int (length result) + n_rnc n') \<and>
             (\<not> revealed \<longrightarrow> result' = result)"
    and "updateChildrenAfterFilterChange opts cs v result revealed hvd vci = (cs', result', hvd', vci')"
  shows "(\<forall>c \<in> set cs'. all_visible c) \<and>
         (revealed \<longrightarrow> (\<forall>c \<in> set cs'. count_ok c) \<and>
            int (length result') = int (length result) + sum_list (map n_rnc cs')) \<and>
         (\<not> revealed \<longrightarrow> result' = result)"
  using assms
proof (induction cs arbitrary: result hvd vci cs' result' hvd' vci')
  case Nil
  then show ?case by simp
next
  case (Cons child cs)
  obtain child1 result1 b where
    c: "updateNodeAfterFilterChange' opts False child v result revealed = (child1, result1, b)"
    by (cases "updateNodeAfterFilterChange' opts False child v result revealed")
  have p: "all_visible child1 \<and>
           (revealed \<longrightarrow> count_ok child1 \<and>
              int (length result1) = int (length result) + n_rnc child1) \<and>
           (\<not> revealed \<longrightarrow> result1 = result)"
    using Cons.prems(1) [OF _ c] by simp
  then have v1: "n_visible child1" using all_visible_sel [of child1] by simp
  obtain cs1 result2 hvd2 vci2 where
    r: "updateChildrenAfterFilterChange opts cs v result1 revealed (b \<or> hvd) (vci + 1)
          = (cs1, result2, hvd2, vci2)"
    by (cases "updateChildrenAfterFilterChange opts cs v result1 revealed (b \<or> hvd) (vci + 1)")
       auto
  have ih: "(\<forall>c \<in> set cs1. all_visible c) \<and>
         (revealed \<longrightarrow> (\<forall>c \<in> set cs1. count_ok c) \<and>
            int (length result2) = int (length result1) + sum_list (map n_rnc cs1)) \<and>
         (\<not> revealed \<longrightarrow> result2 = result1)"
  proof (rule Cons.IH [OF _ r])
    fix c pv result revealed n' result' b
    assume "c \<in> set cs"
      and "updateNodeAfterFilterChange' opts False c pv result revealed = (n', result', b)"
    then show "all_visible n' \<and>
             (revealed \<longrightarrow> count_ok n' \<and> int (length result') = int (length result) + n_rnc n') \<and>
             (\<not> revealed \<longrightarrow> result' = result)"
      using Cons.prems(1) [of c pv result revealed n' result' b] by simp
  qed
  from Cons.prems(2) c r v1 have cs': "cs' =
      Node ((attrs child1)\<lparr>visibleChildIndex := vci\<rparr>) (children child1) # cs1"
    and res': "result' = result2"
    by (auto simp: Let_def)
  have a: "all_visible (Node ((attrs child1)\<lparr>visibleChildIndex := vci\<rparr>) (children child1))"
    using p all_visible_vci [where n = child1 and k = vci] by simp
  have b: "count_ok (Node ((attrs child1)\<lparr>visibleChildIndex := vci\<rparr>) (children child1))"
    if revealed using that p count_ok_vci [where n = child1 and k = vci] by simp
  show ?case
    unfolding cs' res' using a b p ih
    by (simp del: all_visible.simps count_ok.simps)
qed

lemma updateNodeAfterFilterChange'_counts:
  fixes opts :: "('a, 'fd) options"
  assumes sa: "shows_all opts"
  shows "updateNodeAfterFilterChange' opts False n pv result revealed = (n', result', b) \<Longrightarrow>
         all_visible n' \<and>
         (revealed \<longrightarrow> count_ok n' \<and> int (length result') = int (length result) + n_rnc n') \<and>
         (\<not> revealed \<longrightarrow> result' = result)"
proof (induction n arbitrary: pv result revealed n' result' b)
  case (Node fs cs)
  have kids: "\<And>c pv result revealed n' result' b. c \<in> set cs \<Longrightarrow>
             updateNodeAfterFilterChange' opts False c pv result revealed = (n', result', b) \<Longrightarrow>
             all_visible n' \<and>
             (revealed \<longrightarrow> count_ok n' \<and> int (length result') = int (length result) + n_rnc n') \<and>
             (\<not> revealed \<longrightarrow> result' = result)"
    using Node.IH by blast
  obtain d where f: "filterNode opts (element fs) pv = (Visible, d)"
    using sa [unfolded shows_all_def]
    by (cases "filterNode opts (element fs) pv") (metis fst_conv)
  let ?result1 = "if revealed then result @ [nid fs] else result"
  obtain cs1 result2 hvd2 vci2 where
    r: "updateChildrenAfterFilterChange opts cs (Some Visible) ?result1
          (revealed \<and> \<not> collapsed fs) False 0 = (cs1, result2, hvd2, vci2)"
    by (cases "updateChildrenAfterFilterChange opts cs (Some Visible) ?result1
                 (revealed \<and> \<not> collapsed fs) False 0") auto
  note q = updateChildrenAfterFilterChange_counts [OF kids r]
  from Node.prems f r have n': "children n' = cs1" "n_visible n'"
    "n_collapsed n' = collapsed fs"
    "n_rnc n' = (if collapsed fs then 1
                 else 1 + (int (length result2) - int (length ?result1)))"
    "result' = result2"
    by (auto simp: Let_def split: if_splits)
  have a: "all_visible n'" using q n' all_visible_sel [of n'] by simp
  have b: "count_ok n' \<and> int (length result') = int (length result) + n_rnc n'" if revealed
    using that q n' count_ok_sel [of n'] by (cases "collapsed fs") auto
  have c: "result' = result" if "\<not> revealed" using that q n' by simp
  show ?case using a b c by blast
qed

lemma refilter_counts_inv:
  fixes opts :: "('a, 'fd) options"
  assumes sa: "shows_all opts" and inv: "counts_inv (root m)"
  shows "counts_inv (root (refilter opts m))"
proof -
  obtain fs cs where rt: "root m = Node fs cs" by (cases "root m")
  from inv rt have v: "visible fs" and nc: "\<not> collapsed fs" "\<not> collapsible fs"
    by (simp_all add: counts_inv_def)
  have kids: "\<And>c pv result revealed n' result' b. c \<in> set cs \<Longrightarrow>
             updateNodeAfterFilterChange' opts False c pv result revealed = (n', result', b) \<Longrightarrow>
             all_visible n' \<and>
             (revealed \<longrightarrow> count_ok n' \<and> int (length result') = int (length result) + n_rnc n') \<and>
             (\<not> revealed \<longrightarrow> result' = result)"
    using updateNodeAfterFilterChange'_counts [OF sa] by blast
  obtain cs1 result2 hvd2 vci2 where
    r: "updateChildrenAfterFilterChange opts cs None [] True False 0 = (cs1, result2, hvd2, vci2)"
    by (cases "updateChildrenAfterFilterChange opts cs None [] True False 0") auto
  note q = updateChildrenAfterFilterChange_counts [OF kids r]
  obtain r' res b where
    u: "updateNodeAfterFilterChange' opts True (root m)
          (Some (if n_visible (root m) then Visible else Hidden)) [] True = (r', res, b)"
    by (cases "updateNodeAfterFilterChange' opts True (root m)
          (Some (if n_visible (root m) then Visible else Hidden)) [] True")
  have e: "root (refilter opts m) = r'"
    using u by (simp add: refilter_def updateNodeAfterFilterChange_def Let_def)
  from u rt r v nc have r': "children r' = cs1" "n_visible r'" "\<not> n_collapsed r'"
    "\<not> n_collapsible r'"
    by (auto simp: Let_def split: if_splits)
  show ?thesis
    unfolding e using r' q all_visible_sel [of r'] by (simp add: counts_inv_def)
qed

lemma ancestors_expanded_above: "ancestors_expanded n loc = above_expanded n (map nat loc)"
  by (induction loc arbitrary: n) simp_all

lemma do_call_counts_inv:
  fixes opts :: "('a, 'fd) options"
  assumes "shows_all opts" and "counts_inv (root m)" and "valid_call m c"
  shows "counts_inv (root (do_call opts c m))"
proof (cases c)
  case (Splice location deleteCount toInsert)
  with assms(3) obtain p where "location \<noteq> []" "walk (root m) (butlast location) = Some p"
    "0 \<le> last location" "last location \<le> int (length (children p))"
    by (auto split: option.splits)
  from splice_counts_inv [OF assms(1,2) this] show ?thesis using Splice by simp
next
  case (SetCollapsed location c' rc)
  with assms(3) obtain n where "walk (root m) location = Some n" by auto
  from setCollapsed_counts_inv [OF assms(2) this] show ?thesis using SetCollapsed by simp
next
  case (ExpandTo location)
  with assms(3) obtain n where "walk (root m) location = Some n" by auto
  from expandTo_counts_inv [OF assms(2) this] show ?thesis using ExpandTo by simp
next
  case Refilter
  then show ?thesis using refilter_counts_inv [OF assms(1,2)] by simp
qed

lemma run_counts_inv:
  fixes opts :: "('a, 'fd) options"
  shows "shows_all opts \<Longrightarrow> counts_inv (root m0) \<Longrightarrow> run opts calls m0 = Some m \<Longrightarrow>
         counts_inv (root m)"
proof (induction calls arbitrary: m0)
  case Nil
  then show ?case by simp
next
  case (Cons c calls)
  from Cons.prems(3) have v: "valid_call m0 c"
    and r: "run opts calls (do_call opts c m0) = Some m"
    by (auto split: if_splits)
  from Cons.IH [OF Cons.prems(1) do_call_counts_inv [OF Cons.prems(1,2) v] r]
  show ?case .
qed

lemma counts_inv_init: "counts_inv (root (init_model e))"
  by (simp add: counts_inv_def init_model_def)

lemma shows_all_no_filter: "shows_all no_filter"
  by (simp add: shows_all_def no_filter_def filterNode_def)

text \<open>
  Claim C2, for a filter that hides no element: after any sequence of valid calls of
  \<open>splice\<close>, \<open>setCollapsed\<close>, \<open>expandTo\<close> and \<open>refilter\<close> on a new model, every node
  other than the root whose ancestors are all expanded is visible, and its
  \<open>renderNodeCount\<close> is 1 when it is collapsed and 1 plus the sum of its children's
  \<open>renderNodeCount\<close> when it is expanded (which is 1 for a childless node).
\<close>

theorem render_counts_of_revealed_nodes:
  fixes opts :: "('a, 'fd) options"
  assumes "shows_all opts"
    and "run opts calls (init_model e) = Some m"
    and "walk (root m) location = Some n"
    and "location \<noteq> []"
    and "ancestors_expanded (root m) location"
  shows "n_visible n \<and>
         n_rnc n = (if n_collapsed n then 1 else 1 + sum_list (map n_rnc (children n)))"
proof -
  have inv: "counts_inv (root m)"
    using run_counts_inv [OF assms(1) counts_inv_init assms(2)] .
  then have avr: "all_visible (root m)"
    and kr: "\<forall>c \<in> set (children (root m)). count_ok c"
    by (simp_all add: counts_inv_def)
  have na: "node_at (root m) (map nat location) = Some n" using walk_node_at [OF assms(3)] .
  have "all_visible n" using all_visible_node_at [OF avr na] .
  then have v: "n_visible n" using all_visible_sel [of n] by simp
  obtain i q where pq: "map nat location = i # q" using assms(4) by (cases location) auto
  from na pq have i: "i < length (children (root m))"
    and na': "node_at (children (root m) ! i) q = Some n"
    by (auto split: if_splits)
  have ab: "above_expanded (children (root m) ! i) q"
    using assms(5) pq by (simp add: ancestors_expanded_above)
  have "count_ok (children (root m) ! i)" using kr i by simp
  from count_ok_node_at [OF this na' ab] have "count_ok n" .
  then show ?thesis using v count_ok_sel [of n] by simp
qed

text \<open>An instance: after the calls \<open>example_calls\<close> the first root child is expanded
  and has three children that count 1 each; its count is 4.\<close>

theorem render_counts_of_revealed_nodes_witness:
  "shows_all no_filter \<and>
   run no_filter example_calls (init_model ''root'') \<noteq> None \<and>
   walk (root (the (run no_filter example_calls (init_model ''root'')))) [0] \<noteq> None \<and>
   ancestors_expanded (root (the (run no_filter example_calls (init_model ''root'')))) [0] \<and>
   map n_rnc (children
     (the (walk (root (the (run no_filter example_calls (init_model ''root'')))) [0])))
     = [1, 1, 1] \<and>
   n_rnc (the (walk (root (the (run no_filter example_calls (init_model ''root'')))) [0])) = 4"
proof -
  let ?m = "the (run no_filter example_calls (init_model ''root''))"
  let ?n = "the (walk (root ?m) [0])"
  have r: "run no_filter example_calls (init_model ''root'') = Some ?m" by code_simp
  have w: "walk (root ?m) [0] = Some ?n" by code_simp
  have a: "ancestors_expanded (root ?m) [0]" by code_simp
  have c: "\<not> n_collapsed ?n" by code_simp
  have k: "map n_rnc (children ?n) = [1, 1, 1]" by code_simp
  from render_counts_of_revealed_nodes [OF shows_all_no_filter r w _ a]
  have "n_rnc ?n = (if n_collapsed ?n then 1 else 1 + sum_list (map n_rnc (children ?n)))"
    by simp
  then have e: "n_rnc ?n = 4" using c k by simp
  have r0: "run no_filter example_calls (init_model ''root'') \<noteq> None" by code_simp
  have w0: "walk (root ?m) [0] \<noteq> None" by code_simp
  show ?thesis using shows_all_no_filter r0 w0 a k e by blast
qed

text \<open>
  Below a collapsed node the counts are not kept: \<open>_setListNodeCollapsed\<close> returns at
  line 249 when the node is not revealed. In \<open>model_deep\<close> the node \<open>t\<close> at \<open>[0, 0]\<close> lies
  below the collapsed \<open>a\<close>; expanding \<open>t\<close> leaves its count at 1, while it is visible and
  expanded and has one child that counts 1.
\<close>

theorem setCollapsed_below_collapsed_counterexample:
  "run no_filter [SetCollapsed [0, 0] (Some False) None] model_deep \<noteq> None \<and>
   walk (root (the (run no_filter [SetCollapsed [0, 0] (Some False) None] model_deep))) [0, 0]
     \<noteq> None \<and>
   n_visible (the (walk (root (the (run no_filter [SetCollapsed [0, 0] (Some False) None]
      model_deep))) [0, 0])) \<and>
   \<not> n_collapsed (the (walk (root (the (run no_filter [SetCollapsed [0, 0] (Some False) None]
      model_deep))) [0, 0])) \<and>
   map n_rnc (children (the (walk (root (the (run no_filter
      [SetCollapsed [0, 0] (Some False) None] model_deep))) [0, 0]))) = [1] \<and>
   n_rnc (the (walk (root (the (run no_filter [SetCollapsed [0, 0] (Some False) None]
      model_deep))) [0, 0])) = 1 \<and>
   claimed_renderNodeCount (the (walk (root (the (run no_filter
      [SetCollapsed [0, 0] (Some False) None] model_deep))) [0, 0])) = 2"
  by code_simp

section \<open>Inserting and deleting again\<close>

text \<open>
  Claim C3 fails on the code. In \<open>model_ab_refiltered\<close> the hidden root child \<open>a\<close> has kept
  \<open>renderNodeCount = 1\<close> (the early return of line 413) and the render list is \<open>[b]\<close>.
  Location \<open>[2]\<close> is the place after \<open>b\<close>. Inserting \<open>c\<close> (identity 3) there computes the
  list index 2 from the counts of \<open>a\<close> and \<open>b\<close>, which is past the end of the list, so the
  row of \<open>c\<close> is put at the end. Deleting at \<open>[2]\<close> again returns \<open>c\<close> and takes it out of
  the tree, but removes one row at index 2 of the list, where there is none: the row of
  \<open>c\<close> stays.
\<close>

theorem stale_count_breaks_round_trip:
  "list_proj model_ab_refiltered = [2] \<and>
   map n_id (children (root model_ab_refiltered)) = [1, 2] \<and>
   map n_rnc (children (root model_ab_refiltered)) = [1, 1] \<and>
   list_proj (snd (splice (hide ''a'') [2] 0 [leaf ''c''] model_ab_refiltered)) = [2, 3] \<and>
   fst (splice (hide ''a'') [2] 1 []
          (snd (splice (hide ''a'') [2] 0 [leaf ''c''] model_ab_refiltered)))
     = Inr [TreeElement ''c'' [] None (Some False)] \<and>
   list_proj (snd (splice (hide ''a'') [2] 1 []
          (snd (splice (hide ''a'') [2] 0 [leaf ''c''] model_ab_refiltered)))) = [2, 3] \<and>
   map n_id (children (root (snd (splice (hide ''a'') [2] 1 []
          (snd (splice (hide ''a'') [2] 0 [leaf ''c''] model_ab_refiltered)))))) = [1, 2]"
  by code_simp

end
